theory Spec2Isabelle
  imports Main "HOL-Library.Sublist"
begin

section \<open>Exceptions\<close>

text \<open>
  The exceptions that news_fetcher.py can meet. \<open>OverflowError\<close> comes from
  \<^verbatim>\<open>datetime.now() - timedelta(hours=...)\<close>, \<open>KeyError\<close> from \<^verbatim>\<open>x["published"]\<close>,
  \<open>TypeError\<close> from \<^verbatim>\<open>entry.get("summary", "")[:500]\<close> when the value cannot be sliced,
  and the two remaining constructors stand for whatever \<^verbatim>\<open>feedparser.parse\<close> raises:
  an instance of \<^verbatim>\<open>Exception\<close>, which \<^verbatim>\<open>except Exception\<close> catches, or an
  instance of \<^verbatim>\<open>BaseException\<close> only (KeyboardInterrupt, SystemExit), which it
  does not catch.
\<close>

datatype exc =
  OverflowError | KeyError | TypeError | OtherException string | NonException string

fun is_Exception :: "exc \<Rightarrow> bool" where
  "is_Exception (NonException _) = False"
| "is_Exception _ = True"

section \<open>datetime\<close>

text \<open>
  A naive \<^verbatim>\<open>datetime\<close> is the number of microseconds since 0001-01-01 00:00:00.
  Python's values range from 0001-01-01 00:00:00 to 9999-12-31 23:59:59.999999, the
  last day having ordinal 3652059.
\<close>

type_synonym datetime = int

definition MAXORDINAL :: int where
  "MAXORDINAL = 3652059"

definition US_PER_HOUR :: int where
  "US_PER_HOUR = 3600000000"

definition US_PER_DAY :: int where
  "US_PER_DAY = 86400000000"

definition datetime_in_range :: "int \<Rightarrow> bool" where
  "datetime_in_range t \<longleftrightarrow> 0 \<le> t \<and> t < MAXORDINAL * US_PER_DAY"

text \<open>
  \<^verbatim>\<open>t - timedelta(hours=h)\<close>. The constructor of the timedelta, its negation and the
  subtraction each raise OverflowError when a value leaves its range; for a datetime
  \<open>t\<close> in range every one of these checks is implied by the last one, that the result
  is a date between ordinal 1 and \<open>MAXORDINAL\<close>.
\<close>

definition minus_hours :: "datetime \<Rightarrow> int \<Rightarrow> exc + datetime" where
  "minus_hours t h =
     (let r = t - h * US_PER_HOUR
      in if datetime_in_range r then Inr r else Inl OverflowError)"

text \<open>The constructor \<^verbatim>\<open>datetime(year, month, day, hour=0, minute=0, second=0)\<close>.\<close>

definition is_leap :: "int \<Rightarrow> bool" where
  "is_leap y = (if y mod 100 = 0 then y mod 400 = 0 else y mod 4 = 0)"

definition days_in_month :: "int \<Rightarrow> int \<Rightarrow> int" where
  "days_in_month y m =
     (if m = 2 then (if is_leap y then 29 else 28)
      else if m = 4 \<or> m = 6 \<or> m = 9 \<or> m = 11 then 30 else 31)"

definition days_before_year :: "int \<Rightarrow> int" where
  "days_before_year y = (y - 1) * 365 + (y - 1) div 4 - (y - 1) div 100 + (y - 1) div 400"

definition days_before_month :: "int \<Rightarrow> int \<Rightarrow> int" where
  "days_before_month y m = sum_list (map (days_in_month y) [1..m - 1])"

definition ymd2ord :: "int \<Rightarrow> int \<Rightarrow> int \<Rightarrow> int" where
  "ymd2ord y m d = days_before_year y + days_before_month y m + d"

text \<open>
  The argument list is what \<^verbatim>\<open>*t[:6]\<close> unpacks, at most six values: fewer than
  three is a TypeError, a field out of range a ValueError. Both are swallowed by the
  bare \<^verbatim>\<open>except\<close> of the caller, so the failure is \<open>None\<close>.
\<close>

fun datetime_new :: "int list \<Rightarrow> datetime option" where
  "datetime_new (y # m # d # rest) =
     (let hh = (case rest of h # _ \<Rightarrow> h | [] \<Rightarrow> 0);
          mi = (case rest of _ # x # _ \<Rightarrow> x | _ \<Rightarrow> 0);
          ss = (case rest of _ # _ # s # _ \<Rightarrow> s | _ \<Rightarrow> 0)
      in if 1 \<le> y \<and> y \<le> 9999 \<and> 1 \<le> m \<and> m \<le> 12 \<and> 1 \<le> d \<and> d \<le> days_in_month y m
            \<and> 0 \<le> hh \<and> hh \<le> 23 \<and> 0 \<le> mi \<and> mi \<le> 59 \<and> 0 \<le> ss \<and> ss \<le> 59
         then Some (((ymd2ord y m d - 1) * 86400 + hh * 3600 + mi * 60 + ss) * 1000000)
         else None)"
| "datetime_new _ = None"

section \<open>Data model\<close>

text \<open>
  The value stored under the key \<^verbatim>\<open>"summary"\<close> of an entry: a string, or a value that
  \<^verbatim>\<open>[:500]\<close> cannot slice (Python's None, a number).
\<close>

datatype summary_value = Text string | NotSliceable

text \<open>
  An entry of a parsed feed. Every key may be missing; \<open>published_parsed\<close> and
  \<open>updated_parsed\<close> are the time tuples of feedparser, \<open>None\<close> when the attribute is
  absent or is Python's None.
\<close>

record raw_entry =
  entry_title :: "string option"
  entry_link :: "string option"
  entry_summary :: "summary_value option"
  published_parsed :: "int list option"
  updated_parsed :: "int list option"

record parsed_feed =
  feed_title :: "string option"
  entries :: "raw_entry list"

text \<open>
  The article dictionary. The three keys that \<open>filter_stale_articles\<close> reads with
  \<^verbatim>\<open>.get\<close> may be missing; \<open>article_id\<close> is the key \<^verbatim>\<open>"id"\<close>, set only at the end of a
  fetch.
\<close>

record article =
  title :: "string option"
  link :: string
  source :: string
  published :: "datetime option"
  summary :: "string option"
  article_id :: "int option"

text \<open>
  Log records, in the order they are emitted. The formatted age of a rejected article
  (a float) is not part of the model.
\<close>

datatype log_record =
    Info_fetching_from string
  | Error_fetching string exc
  | Debug_rejected_age string
  | Debug_rejected_stale_year string string
  | Info_stale_filter nat nat datetime
  | Warning_all_filtered_out
  | Warning_filter_disabled
  | Info_fetched nat
  | Warning_id_not_found int

text \<open>
  What the program shares with its surroundings: the number of \<^verbatim>\<open>datetime.now()\<close>
  calls made so far (the \<open>k\<close>-th call returns \<open>clock k\<close> for a clock
  \<open>clock :: nat \<Rightarrow> datetime\<close> given from outside) and the log.
\<close>

record world =
  ticks :: nat
  log :: "log_record list"

record NewsFetcher =
  feeds :: "string list"
  articles_cache :: "int \<rightharpoonup> article"

section \<open>The stale-year patterns\<close>

text \<open>
  \<^verbatim>\<open>\w\<close> of a Python str pattern on the code points below 256 (a \<open>char\<close> is read as
  the code point of that number): letters, digits and the underscore of ASCII, and the
  alphanumeric characters of Latin-1.
\<close>

definition is_word_char :: "char \<Rightarrow> bool" where
  "is_word_char c =
     (let n = (of_char c :: nat)
      in (48 \<le> n \<and> n \<le> 57) \<or> (65 \<le> n \<and> n \<le> 90) \<or> n = 95 \<or> (97 \<le> n \<and> n \<le> 122)
         \<or> n = 170 \<or> n = 178 \<or> n = 179 \<or> n = 181 \<or> n = 185 \<or> n = 186
         \<or> (188 \<le> n \<and> n \<le> 190) \<or> (192 \<le> n \<and> n \<le> 214) \<or> (216 \<le> n \<and> n \<le> 246)
         \<or> 248 \<le> n)"

text \<open>\<^verbatim>\<open>\b\<close> at position \<open>p\<close> of \<open>s\<close>: exactly one side is a word character.\<close>

definition word_boundary :: "string \<Rightarrow> nat \<Rightarrow> bool" where
  "word_boundary s p \<longleftrightarrow>
     (0 < p \<and> is_word_char (s ! (p - 1))) \<noteq> (p < length s \<and> is_word_char (s ! p))"

text \<open>\<^verbatim>\<open>re.search(r'\bLIT\b', s)\<close> is not None, for a literal \<open>lit\<close>.\<close>

definition re_search_word :: "string \<Rightarrow> string \<Rightarrow> bool" where
  "re_search_word lit s =
     list_ex (\<lambda>i. word_boundary s i \<and> take (length lit) (drop i s) = lit
                  \<and> word_boundary s (i + length lit))
             [0..<Suc (length s)]"

text \<open>The literals of \<^verbatim>\<open>[r'\b2024\b', r'\b2023\b', r'\b2022\b']\<close>.\<close>

definition STALE_YEAR_PATTERNS :: "string list" where
  "STALE_YEAR_PATTERNS = [''2024'', ''2023'', ''2022'']"

text \<open>The module-level switch, as the module sets it.\<close>

definition STRICT_24H_FILTER :: bool where
  "STRICT_24H_FILTER = True"

section \<open>filter_stale_articles\<close>

definition get_or_empty :: "string option \<Rightarrow> string" where
  "get_or_empty v = (case v of Some s \<Rightarrow> s | None \<Rightarrow> [])"

text \<open>\<^verbatim>\<open>f"{title} {summary}"\<close>\<close>

definition text_to_check :: "article \<Rightarrow> string" where
  "text_to_check a = get_or_empty (title a) @ '' '' @ get_or_empty (summary a)"

text \<open>Check 1: \<^verbatim>\<open>published and published < cutoff\<close> (a datetime is always truthy).\<close>

definition too_old :: "datetime \<Rightarrow> article \<Rightarrow> bool" where
  "too_old cutoff a = (case published a of None \<Rightarrow> False | Some p \<Rightarrow> p < cutoff)"

text \<open>Check 2: the first pattern of the list that is found in the text, if any.\<close>

definition stale_year_found :: "article \<Rightarrow> string option" where
  "stale_year_found a = find (\<lambda>pat. re_search_word pat (text_to_check a)) STALE_YEAR_PATTERNS"

text \<open>
  The loop over the articles, with its three accumulators \<open>fresh_articles\<close>,
  \<open>rejected_count\<close> and the log.
\<close>

fun filter_loop ::
  "datetime \<Rightarrow> article list \<Rightarrow> article list \<Rightarrow> nat \<Rightarrow> log_record list
     \<Rightarrow> article list \<times> nat \<times> log_record list" where
  "filter_loop cutoff [] fresh rejected lg = (fresh, rejected, lg)"
| "filter_loop cutoff (a # as) fresh rejected lg =
     (if too_old cutoff a
      then filter_loop cutoff as fresh (rejected + 1)
             (lg @ [Debug_rejected_age (take 50 (get_or_empty (title a)))])
      else (case stale_year_found a of
              Some pat \<Rightarrow>
                filter_loop cutoff as fresh (rejected + 1)
                  (lg @ [Debug_rejected_stale_year pat (take 50 (get_or_empty (title a)))])
            | None \<Rightarrow> filter_loop cutoff as (fresh @ [a]) rejected lg))"

text \<open>
  The switch is a parameter: the module reads its global \<^verbatim>\<open>STRICT_24H_FILTER\<close> at every
  call.
\<close>

definition filter_stale_articles ::
  "bool \<Rightarrow> (nat \<Rightarrow> datetime) \<Rightarrow> article list \<Rightarrow> int \<Rightarrow> world
     \<Rightarrow> (exc + article list) \<times> world" where
  "filter_stale_articles strict clock articles max_age_hours w =
     (if \<not> strict then (Inr articles, w\<lparr>log := log w @ [Warning_filter_disabled]\<rparr>)
      else
        (let now = clock (ticks w);
             w1 = w\<lparr>ticks := Suc (ticks w)\<rparr>
         in case minus_hours now max_age_hours of
              Inl e \<Rightarrow> (Inl e, w1)
            | Inr cutoff \<Rightarrow>
                (case filter_loop cutoff articles [] 0 (log w1) of
                   (fresh, rejected, lg) \<Rightarrow>
                     (Inr fresh,
                      w1\<lparr>log := lg @ [Info_stale_filter (length fresh) rejected cutoff]
                                @ (if length fresh = 0 then [Warning_all_filtered_out] else [])\<rparr>))))"

section \<open>NewsFetcher\<close>

text \<open>
  \<^verbatim>\<open>self.feeds = feeds or RSS_FEEDS\<close>: the default list \<open>RSS_FEEDS\<close> of the
  configuration module is a parameter, the argument is \<open>None\<close> when it is left out.
\<close>

definition NewsFetcher_init :: "string list \<Rightarrow> string list option \<Rightarrow> NewsFetcher" where
  "NewsFetcher_init RSS_FEEDS feeds_arg =
     \<lparr>feeds = (case feeds_arg of
                 None \<Rightarrow> RSS_FEEDS
               | Some fs \<Rightarrow> if fs = [] then RSS_FEEDS else fs),
      articles_cache = Map.empty\<rparr>"

text \<open>
  \<open>_parse_date\<close>: a field is tried when it is present and truthy (a non-empty tuple);
  the constructor gets its first six values.
\<close>

definition try_field :: "int list option \<Rightarrow> datetime option" where
  "try_field f = (case f of None \<Rightarrow> None | Some t \<Rightarrow> if t = [] then None else datetime_new (take 6 t))"

definition parse_date :: "(nat \<Rightarrow> datetime) \<Rightarrow> raw_entry \<Rightarrow> nat \<Rightarrow> datetime \<times> nat" where
  "parse_date clock entry n =
     (case try_field (published_parsed entry) of
        Some t \<Rightarrow> (t, n)
      | None \<Rightarrow>
          (case try_field (updated_parsed entry) of
             Some t \<Rightarrow> (t, n)
           | None \<Rightarrow> (clock n, Suc n)))"

text \<open>\<^verbatim>\<open>entry.get("summary", "")[:500]\<close>: the default is the empty string.\<close>

definition slice_summary :: "summary_value option \<Rightarrow> exc + string" where
  "slice_summary v =
     (case v of
        None \<Rightarrow> Inr (take 500 [])
      | Some (Text s) \<Rightarrow> Inr (take 500 s)
      | Some NotSliceable \<Rightarrow> Inl TypeError)"

text \<open>The dictionary display of lines 111 to 117; only the slice of the summary can raise.\<close>

definition make_article :: "string \<Rightarrow> datetime \<Rightarrow> raw_entry \<Rightarrow> exc + article" where
  "make_article src p entry =
     (case slice_summary (entry_summary entry) of
        Inl ex \<Rightarrow> Inl ex
      | Inr s \<Rightarrow>
          Inr \<lparr>title = Some (case entry_title entry of Some t \<Rightarrow> t | None \<Rightarrow> ''No title''),
               link = (case entry_link entry of Some l \<Rightarrow> l | None \<Rightarrow> []),
               source = src,
               published = Some p,
               summary = Some s,
               article_id = None\<rparr>)"

text \<open>
  The loop over \<^verbatim>\<open>feed.entries\<close>; \<open>acc\<close> is \<open>all_articles\<close>, \<open>n\<close> the clock's counter. The
  list \<open>all_articles\<close> lives outside the \<^verbatim>\<open>try\<close> block, so when an entry raises, the
  loop ends and the articles appended so far stay: the result is the exception, if any,
  the list and the counter.
\<close>

fun entries_loop ::
  "(nat \<Rightarrow> datetime) \<Rightarrow> datetime \<Rightarrow> string \<Rightarrow> raw_entry list \<Rightarrow> article list \<Rightarrow> nat
     \<Rightarrow> exc option \<times> article list \<times> nat" where
  "entries_loop clock cutoff_time src [] acc n = (None, acc, n)"
| "entries_loop clock cutoff_time src (e # es) acc n =
     (case parse_date clock e n of
        (p, n') \<Rightarrow>
          if p > cutoff_time
          then (case make_article src p e of
                  Inl ex \<Rightarrow> (Some ex, acc, n')
                | Inr article \<Rightarrow> entries_loop clock cutoff_time src es (acc @ [article]) n')
          else entries_loop clock cutoff_time src es acc n')"

text \<open>
  The loop over \<^verbatim>\<open>self.feeds\<close>. \<open>parse\<close> is \<^verbatim>\<open>feedparser.parse\<close>: the parsed feed of a
  URL, or the exception it raises. The \<^verbatim>\<open>try\<close> block encloses the call of \<open>parse\<close> and the
  loop over the entries: an \<^verbatim>\<open>Exception\<close> from either is logged and the next feed is
  taken, with nothing rolled back; anything else propagates.
\<close>

fun feeds_loop ::
  "(nat \<Rightarrow> datetime) \<Rightarrow> (string \<Rightarrow> exc + parsed_feed) \<Rightarrow> datetime \<Rightarrow> string list
     \<Rightarrow> article list \<Rightarrow> world \<Rightarrow> (exc + article list) \<times> world" where
  "feeds_loop clock parse cutoff_time [] acc w = (Inr acc, w)"
| "feeds_loop clock parse cutoff_time (feed_url # rest) acc w =
     (let w1 = w\<lparr>log := log w @ [Info_fetching_from feed_url]\<rparr>
      in case parse feed_url of
           Inr feed \<Rightarrow>
             (case entries_loop clock cutoff_time
                     (case feed_title feed of Some s \<Rightarrow> s | None \<Rightarrow> feed_url)
                     (entries feed) acc (ticks w1) of
                (None, acc', n') \<Rightarrow>
                  feeds_loop clock parse cutoff_time rest acc' (w1\<lparr>ticks := n'\<rparr>)
              | (Some e, acc', n') \<Rightarrow>
                  if is_Exception e
                  then feeds_loop clock parse cutoff_time rest acc'
                         (w1\<lparr>ticks := n', log := log w1 @ [Error_fetching feed_url e]\<rparr>)
                  else (Inl e, w1\<lparr>ticks := n'\<rparr>))
         | Inl e \<Rightarrow>
             if is_Exception e
             then feeds_loop clock parse cutoff_time rest acc
                    (w1\<lparr>log := log w1 @ [Error_fetching feed_url e]\<rparr>)
             else (Inl e, w1))"

text \<open>
  \<^verbatim>\<open>all_articles.sort(key=lambda x: x["published"], reverse=True)\<close>: the keys are
  computed first (a missing key is a KeyError), then the list is sorted by descending
  key, equal keys keeping their order.
\<close>

definition sort_by_published_desc :: "article list \<Rightarrow> exc + article list" where
  "sort_by_published_desc xs =
     (case those (map published xs) of
        None \<Rightarrow> Inl KeyError
      | Some keys \<Rightarrow> Inr (map snd (sort_key (\<lambda>(k, a). - k) (zip keys xs))))"

text \<open>\<^verbatim>\<open>xs[:limit]\<close>: a negative limit counts from the end.\<close>

definition slice_to :: "'a list \<Rightarrow> int \<Rightarrow> 'a list" where
  "slice_to xs limit =
     (if 0 \<le> limit then take (nat limit) xs else take (nat (int (length xs) + limit)) xs)"

text \<open>
  \<^verbatim>\<open>for i, article in enumerate(all_articles)\<close>: the dictionary is updated in place,
  so the list that is returned and the cache hold the article with its id.
\<close>

fun assign_ids :: "int \<Rightarrow> article list \<Rightarrow> (int \<rightharpoonup> article) \<Rightarrow> article list \<times> (int \<rightharpoonup> article)" where
  "assign_ids i [] cache = ([], cache)"
| "assign_ids i (a # as) cache =
     (let a' = a\<lparr>article_id := Some i\<rparr>
      in case assign_ids (i + 1) as (cache(i \<mapsto> a')) of
           (as', cache') \<Rightarrow> (a' # as', cache'))"

definition fetch_recent_news ::
  "bool \<Rightarrow> (nat \<Rightarrow> datetime) \<Rightarrow> (string \<Rightarrow> exc + parsed_feed) \<Rightarrow> int \<Rightarrow> int
     \<Rightarrow> NewsFetcher \<Rightarrow> world \<Rightarrow> (exc + article list) \<times> NewsFetcher \<times> world" where
  "fetch_recent_news strict clock parse hours limit self w =
     (let w1 = w\<lparr>ticks := Suc (ticks w)\<rparr>
      in case minus_hours (clock (ticks w)) hours of
           Inl e \<Rightarrow> (Inl e, self, w1)
         | Inr cutoff_time \<Rightarrow>
             (let self1 = self\<lparr>articles_cache := Map.empty\<rparr>
              in case feeds_loop clock parse cutoff_time (feeds self1) [] w1 of
                   (Inl e, w2) \<Rightarrow> (Inl e, self1, w2)
                 | (Inr all_articles, w2) \<Rightarrow>
                     (case sort_by_published_desc all_articles of
                        Inl e \<Rightarrow> (Inl e, self1, w2)
                      | Inr sorted_articles \<Rightarrow>
                          (case filter_stale_articles strict clock sorted_articles 24 w2 of
                             (Inl e, w3) \<Rightarrow> (Inl e, self1, w3)
                           | (Inr fresh, w3) \<Rightarrow>
                               (case assign_ids 0 (slice_to fresh limit) (articles_cache self1) of
                                  (result, cache) \<Rightarrow>
                                    (Inr result,
                                     self1\<lparr>articles_cache := cache\<rparr>,
                                     w3\<lparr>log := log w3 @ [Info_fetched (length result)]\<rparr>))))))"



section \<open>A concrete run\<close>

text \<open>
  One feed with four entries, read at 2026-11-03 12:00:00 by a clock that advances one
  microsecond per reading: an entry dated at that instant, one dated an hour before,
  one dated 25 hours before, and one dated an hour before whose summary mentions 2023.
  Every other URL is unreachable.
\<close>

definition example_now :: datetime where
  "example_now = 63929304000000000"

definition example_clock :: "nat \<Rightarrow> datetime" where
  "example_clock k = example_now + int k"

definition example_entries :: "raw_entry list" where
  "example_entries =
     [\<lparr>entry_title = Some ''Launch today'', entry_link = Some ''https://example.org/1'',
       entry_summary = Some (Text ''A launch.''),
       published_parsed = Some [2026, 11, 3, 12, 0, 0, 1, 307, 0], updated_parsed = None\<rparr>,
      \<lparr>entry_title = Some ''Markets open'', entry_link = Some ''https://example.org/2'',
       entry_summary = Some (Text ''Trading began.''),
       published_parsed = Some [2026, 11, 3, 11, 0, 0, 1, 307, 0], updated_parsed = None\<rparr>,
      \<lparr>entry_title = Some ''Yesterday'', entry_link = Some ''https://example.org/3'',
       entry_summary = Some (Text ''Old news.''),
       published_parsed = Some [2026, 11, 2, 11, 0, 0, 0, 306, 0], updated_parsed = None\<rparr>,
      \<lparr>entry_title = Some ''Retrospective'', entry_link = Some ''https://example.org/4'',
       entry_summary = Some (Text ''in 2023 ...''),
       published_parsed = Some [2026, 11, 3, 11, 0, 0, 1, 307, 0], updated_parsed = None\<rparr>]"

definition example_parse :: "string \<Rightarrow> exc + parsed_feed" where
  "example_parse url =
     (if url = ''https://example.org/feed''
      then Inr \<lparr>feed_title = Some ''Example'', entries = example_entries\<rparr>
      else Inl (OtherException ''unreachable''))"

definition example_fetcher :: NewsFetcher where
  "example_fetcher = \<lparr>feeds = [''https://example.org/feed''], articles_cache = Map.empty\<rparr>"

definition example_world :: world where
  "example_world = \<lparr>ticks = 0, log = []\<rparr>"

definition example_result :: "article list" where
  "example_result =
     [\<lparr>title = Some ''Launch today'', link = ''https://example.org/1'', source = ''Example'',
       published = Some 63929304000000000, summary = Some ''A launch.'', article_id = Some 0\<rparr>,
      \<lparr>title = Some ''Markets open'', link = ''https://example.org/2'', source = ''Example'',
       published = Some 63929300400000000, summary = Some ''Trading began.'',
       article_id = Some 1\<rparr>]"

section \<open>Notions used in the statements\<close>

text \<open>An article survives the enabled filter when neither check rejects it.\<close>

definition keeps :: "datetime \<Rightarrow> article \<Rightarrow> bool" where
  "keeps cutoff a \<longleftrightarrow> \<not> too_old cutoff a \<and> stale_year_found a = None"

text \<open>The debug record that the filter writes for one article: none, or exactly one.\<close>

definition reject_log :: "datetime \<Rightarrow> article \<Rightarrow> log_record list" where
  "reject_log cutoff a =
     (if too_old cutoff a then [Debug_rejected_age (take 50 (get_or_empty (title a)))]
      else case stale_year_found a of
             Some pat \<Rightarrow> [Debug_rejected_stale_year pat (take 50 (get_or_empty (title a)))]
           | None \<Rightarrow> [])"

text \<open>Both articles are dated and the first is not older than the second.\<close>

definition newer_or_equal :: "article \<Rightarrow> article \<Rightarrow> bool" where
  "newer_or_equal a b =
     (case (published a, published b) of (Some s, Some t) \<Rightarrow> t \<le> s | _ \<Rightarrow> False)"

text \<open>
  A whole-word occurrence of \<open>lit\<close> in \<open>s\<close>: the text is \<open>pre @ lit @ post\<close>, where \<open>pre\<close>
  does not end and \<open>post\<close> does not begin with a word character.
\<close>

definition starts_with_word_char :: "string \<Rightarrow> bool" where
  "starts_with_word_char s = (case s of [] \<Rightarrow> False | c # _ \<Rightarrow> is_word_char c)"

definition whole_word_in :: "string \<Rightarrow> string \<Rightarrow> bool" where
  "whole_word_in lit s \<longleftrightarrow>
     (\<exists>pre post. s = pre @ lit @ post \<and> \<not> starts_with_word_char (rev pre)
                 \<and> \<not> starts_with_word_char post)"

text \<open>
  The rule in the words of the specification: the concatenation of title and summary
  contains one of the stale-year markers as a substring.
\<close>

definition contains_substring :: "string \<Rightarrow> string \<Rightarrow> bool" where
  "contains_substring lit s =
     list_ex (\<lambda>i. take (length lit) (drop i s) = lit) [0..<Suc (length s)]"

definition spec_stale_year_match :: "article \<Rightarrow> bool" where
  "spec_stale_year_match a =
     list_ex (\<lambda>lit. contains_substring lit (get_or_empty (title a) @ get_or_empty (summary a)))
             STALE_YEAR_PATTERNS"

text \<open>An article dated at the example's instant whose title holds 2024 inside a longer number.\<close>

definition flight_article :: article where
  "flight_article =
     \<lparr>title = Some ''Flight 20245 delayed'', link = ''https://example.org/5'',
      source = ''Example'', published = Some 63929304000000000,
      summary = Some ''No injuries.'', article_id = None\<rparr>"

text \<open>An article of an hour before that instant whose summary names the year 2023.\<close>

definition retrospective_article :: article where
  "retrospective_article =
     \<lparr>title = Some ''Retrospective'', link = ''https://example.org/4'',
      source = ''Example'', published = Some 63929300400000000,
      summary = Some ''in 2023 ...'', article_id = None\<rparr>"

text \<open>
  A feed whose only entry has no \<open>published_parsed\<close> and an \<open>updated_parsed\<close> that is not
  a date (30 February).
\<close>

definition undated_entry :: raw_entry where
  "undated_entry =
     \<lparr>entry_title = Some ''Archive piece'', entry_link = Some ''https://example.org/6'',
      entry_summary = Some (Text ''First printed long ago.''),
      published_parsed = None, updated_parsed = Some [2026, 2, 30, 0, 0, 0, 0, 61, 0]\<rparr>"

definition undated_parse :: "string \<Rightarrow> exc + parsed_feed" where
  "undated_parse url = Inr \<lparr>feed_title = None, entries = [undated_entry]\<rparr>"

text \<open>The feeds with every raw summary cut to its first 500 characters beforehand.\<close>

definition truncate_summary :: "raw_entry \<Rightarrow> raw_entry" where
  "truncate_summary e =
     e\<lparr>entry_summary :=
         map_option (\<lambda>v. case v of Text s \<Rightarrow> Text (take 500 s) | NotSliceable \<Rightarrow> NotSliceable)
                    (entry_summary e)\<rparr>"

text \<open>The raw text of an entry's summary, empty when the key is missing.\<close>

definition summary_text :: "raw_entry \<Rightarrow> string" where
  "summary_text e = (case entry_summary e of Some (Text s) \<Rightarrow> s | _ \<Rightarrow> [])"

definition truncate_feed :: "(string \<Rightarrow> exc + parsed_feed) \<Rightarrow> string \<Rightarrow> exc + parsed_feed" where
  "truncate_feed parse url =
     (case parse url of
        Inl e \<Rightarrow> Inl e
      | Inr fd \<Rightarrow> Inr (fd\<lparr>entries := map truncate_summary (entries fd)\<rparr>))"

text \<open>An entry whose summary mentions 2024 only after its first 500 characters.\<close>

definition late_marker_entry :: raw_entry where
  "late_marker_entry =
     \<lparr>entry_title = Some ''Long read'', entry_link = Some ''https://example.org/7'',
      entry_summary = Some (Text (replicate 500 (CHR ''x'') @ '' as in 2024'')),
      published_parsed = Some [2026, 11, 3, 12, 0, 0, 1, 307, 0], updated_parsed = None\<rparr>"

definition late_marker_parse :: "string \<Rightarrow> exc + parsed_feed" where
  "late_marker_parse url = Inr \<lparr>feed_title = None, entries = [late_marker_entry]\<rparr>"






section \<open>The filter loop in closed form\<close>

lemma filter_loop_eq:
  "filter_loop c as fresh rej lg =
     (fresh @ filter (keeps c) as,
      rej + length (filter (\<lambda>a. \<not> keeps c a) as),
      lg @ concat (map (reject_log c) as))"
  by (induction as arbitrary: fresh rej lg)
     (auto simp: keeps_def reject_log_def split: option.splits)

lemma filter_stale_articles_strict:
  assumes "minus_hours (clock (ticks w)) h = Inr cutoff"
  shows "filter_stale_articles True clock articles h w =
     (Inr (filter (keeps cutoff) articles),
      \<lparr>ticks = Suc (ticks w),
       log = log w @ concat (map (reject_log cutoff) articles)
             @ [Info_stale_filter (length (filter (keeps cutoff) articles))
                   (length (filter (\<lambda>a. \<not> keeps cutoff a) articles)) cutoff]
             @ (if filter (keeps cutoff) articles = [] then [Warning_all_filtered_out] else [])\<rparr>)"
  using assms by (simp add: filter_stale_articles_def filter_loop_eq)

lemma filter_stale_articles_overflow:
  assumes "minus_hours (clock (ticks w)) h = Inl e"
  shows "filter_stale_articles True clock articles h w = (Inl e, w\<lparr>ticks := Suc (ticks w)\<rparr>)"
  using assms by (simp add: filter_stale_articles_def)

section \<open>Assigning ids and looking them up\<close>

lemma assign_ids_fst:
  "fst (assign_ids (int n) as cache) =
     map (\<lambda>(k, a). a\<lparr>article_id := Some (int k)\<rparr>) (enumerate n as)"
proof (induction as arbitrary: n cache)
  case Nil show ?case by simp
next
  case (Cons a as)
  have e: "int n + 1 = int (Suc n)" by simp
  show ?case unfolding assign_ids.simps Let_def e
    by (simp add: split_beta Cons del: of_nat_Suc)
qed

lemma assign_ids_length: "length (fst (assign_ids i as cache)) = length as"
  by (induction as arbitrary: i cache) (simp_all add: split_beta Let_def)


lemma assign_ids_nth:
  assumes "k < length as"
  shows "fst (assign_ids 0 as cache) ! k = (as ! k)\<lparr>article_id := Some (int k)\<rparr>"
  using assms assign_ids_fst[of 0 as cache] by (simp add: nth_enumerate_eq)

lemma assign_ids_ids:
  "map article_id (fst (assign_ids 0 as cache)) = map (\<lambda>k. Some (int k)) [0..<length as]"
  by (rule nth_equalityI) (simp_all add: assign_ids_length assign_ids_nth)

lemma assign_ids_published:
  "map published (fst (assign_ids 0 as cache)) = map published as"
  by (rule nth_equalityI) (simp_all add: assign_ids_length assign_ids_nth)

lemma assign_ids_strip:
  assumes "\<And>a. a \<in> set as \<Longrightarrow> article_id a = None"
  shows "map (\<lambda>a. a\<lparr>article_id := None\<rparr>) (fst (assign_ids 0 as cache)) = as"
  using assms by (intro nth_equalityI) (simp_all add: assign_ids_length assign_ids_nth)



section \<open>The sort\<close>

lemma those_Some_iff: "those xs = Some ys \<longleftrightarrow> xs = map Some ys"
  by (induction xs arbitrary: ys) (auto split: option.splits)

lemma zip_keys_published:
  assumes "map published xs = map Some ks" and "(k, a) \<in> set (zip ks xs)"
  shows "published a = Some k"
proof -
  from assms(2) obtain i where i: "i < length ks" "i < length xs" "ks ! i = k" "xs ! i = a"
    by (auto simp: set_zip)
  have "map published xs ! i = map Some ks ! i" using assms(1) by simp
  with i show ?thesis by simp
qed

lemma sort_by_published_desc_Inr:
  assumes "sort_by_published_desc xs = Inr ys"
  shows "sorted_wrt newer_or_equal ys"
    and "\<And>t. filter (\<lambda>a. published a = Some t) ys = filter (\<lambda>a. published a = Some t) xs"
    and "set ys = set xs"
    and "\<And>a. a \<in> set xs \<Longrightarrow> published a \<noteq> None"
proof -
  from assms obtain ks where ks: "map published xs = map Some ks"
    and ys: "ys = map snd (sort_key (\<lambda>(k, a). - k) (zip ks xs))"
    by (auto simp: sort_by_published_desc_def those_Some_iff split: option.splits)
  define P where "P = sort_key (\<lambda>(k, a). - k) (zip ks xs)"
  have len: "length ks = length xs" using ks by (metis length_map)
  have pub: "published a = Some k" if "(k, a) \<in> set P" for k a
    using that zip_keys_published[OF ks] by (simp add: P_def)
  have "sorted (map (\<lambda>(k, a). - k) P)" unfolding P_def by (rule sorted_sort_key)
  then have "sorted_wrt (\<lambda>p q. fst q \<le> fst p) P"
    by (simp add: sorted_map split_beta)
  then have "sorted_wrt (\<lambda>p q. newer_or_equal (snd p) (snd q)) P"
  proof (rule sorted_wrt_mono_rel[rotated])
    fix p q assume "p \<in> set P" "q \<in> set P" "fst q \<le> fst p"
    moreover from this have "published (snd p) = Some (fst p)" "published (snd q) = Some (fst q)"
      using pub[of "fst p" "snd p"] pub[of "fst q" "snd q"] by simp_all
    ultimately show "newer_or_equal (snd p) (snd q)" by (simp add: newer_or_equal_def)
  qed
  then show "sorted_wrt newer_or_equal ys"
    by (simp add: ys sorted_wrt_map flip: P_def)
  show "filter (\<lambda>a. published a = Some t) ys = filter (\<lambda>a. published a = Some t) xs" for t
  proof -
    have "filter (\<lambda>a. published a = Some t) ys
            = map snd (filter (\<lambda>p. published (snd p) = Some t) P)"
      by (simp add: ys filter_map o_def flip: P_def)
    also have "filter (\<lambda>p. published (snd p) = Some t) P
                 = filter (\<lambda>p. (\<lambda>(k, a). - k) p = - t) P"
      by (rule filter_cong) (auto dest: pub)
    also have "\<dots> = filter (\<lambda>p. (\<lambda>(k, a). - k) p = - t) (zip ks xs)"
      unfolding P_def by (rule sort_key_stable)
    also have "\<dots> = filter (\<lambda>p. published (snd p) = Some t) (zip ks xs)"
      by (rule filter_cong) (auto dest: zip_keys_published[OF ks])
    also have "map snd \<dots> = filter (\<lambda>a. published a = Some t) (map snd (zip ks xs))"
      by (simp add: filter_map o_def)
    also have "map snd (zip ks xs) = xs" using len by simp
    finally show ?thesis .
  qed
  show "set ys = set xs"
  proof -
    have "set ys = snd ` set (zip ks xs)" by (simp add: ys)
    also have "\<dots> = set (map snd (zip ks xs))" by simp
    also have "map snd (zip ks xs) = xs" using len by simp
    finally show ?thesis .
  qed
  show "published a \<noteq> None" if "a \<in> set xs" for a
  proof -
    from that have "published a \<in> set (map published xs)" by simp
    then show ?thesis unfolding ks by auto
  qed
qed


lemma subseq_slice_to: "subseq (slice_to xs limit) xs"
  by (simp add: slice_to_def prefix_imp_subseq take_is_prefix)

lemma set_slice_to: "set (slice_to xs limit) \<subseteq> set xs"
  by (auto simp: slice_to_def dest: in_set_takeD)

lemma sorted_wrt_slice_to: "sorted_wrt R xs \<Longrightarrow> sorted_wrt R (slice_to xs limit)"
  by (simp add: slice_to_def)

section \<open>The loops of fetch_recent_news\<close>

lemma make_article_Inr:
  assumes "make_article src p e = Inr a"
  shows "published a = Some p" and "article_id a = None"
  using assms by (auto simp: make_article_def split: sum.splits)

lemma make_article_Inl: "make_article src p e = Inl ex \<Longrightarrow> ex = TypeError"
  by (auto simp: make_article_def slice_summary_def
           split: sum.splits option.splits summary_value.splits)

lemma entries_loop_inv:
  assumes "\<And>a. a \<in> set acc \<Longrightarrow> P a" and "\<And>p e a. make_article src p e = Inr a \<Longrightarrow> P a"
  shows "\<forall>a \<in> set (fst (snd (entries_loop clock c src es acc n))). P a"
  using assms(1)
proof (induction es arbitrary: acc n)
  case Nil then show ?case by simp
next
  case (Cons e es)
  obtain p n' where pd: "parse_date clock e n = (p, n')" by (cases "parse_date clock e n")
  show ?case
  proof (cases "p > c")
    case True
    show ?thesis
    proof (cases "make_article src p e")
      case (Inl ex)
      then show ?thesis using pd True Cons.prems by simp
    next
      case (Inr a)
      have "\<forall>x \<in> set (fst (snd (entries_loop clock c src es (acc @ [a]) n'))). P x"
        by (rule Cons.IH) (use Cons.prems assms(2)[OF Inr] in auto)
      then show ?thesis using pd True Inr by simp
    qed
  next
    case False
    have "\<forall>a \<in> set (fst (snd (entries_loop clock c src es acc n'))). P a"
      by (rule Cons.IH) (use Cons.prems in auto)
    then show ?thesis using pd False by simp
  qed
qed

lemma entries_loop_raises: "entries_loop clock c src es acc n = (Some ex, acc', n') \<Longrightarrow> ex = TypeError"
proof (induction es arbitrary: acc n)
  case Nil then show ?case by simp
next
  case (Cons e es)
  obtain p n1 where pd: "parse_date clock e n = (p, n1)" by (cases "parse_date clock e n")
  show ?case
  proof (cases "p > c")
    case True
    show ?thesis
    proof (cases "make_article src p e")
      case (Inl x)
      with Cons.prems pd True have "ex = x" by simp
      with make_article_Inl[OF Inl] show ?thesis by simp
    next
      case (Inr a)
      with Cons.prems pd True
      have "entries_loop clock c src es (acc @ [a]) n1 = (Some ex, acc', n')" by simp
      then show ?thesis by (rule Cons.IH)
    qed
  next
    case False
    with Cons.prems pd have "entries_loop clock c src es acc n1 = (Some ex, acc', n')" by simp
    then show ?thesis by (rule Cons.IH)
  qed
qed

text \<open>One step of the loop over the feeds, for a feed that was parsed.\<close>

lemma feeds_loop_parsed:
  assumes "parse x = Inr feed"
      and "entries_loop clock c (case feed_title feed of Some s \<Rightarrow> s | None \<Rightarrow> x)
             (entries feed) acc (ticks w) = (r, acc1, n1)"
  shows "\<exists>v. ticks v = n1
             \<and> feeds_loop clock parse c (x # xs) acc w = feeds_loop clock parse c xs acc1 v"
proof (cases r)
  case None
  with assms show ?thesis
    by (intro exI[of _ "w\<lparr>log := log w @ [Info_fetching_from x], ticks := n1\<rparr>"])
       (simp add: Let_def)
next
  case (Some ex)
  with entries_loop_raises[of clock c _ "entries feed" acc "ticks w" ex acc1 n1] assms(2)
  have "ex = TypeError" by simp
  with Some assms show ?thesis
    by (intro exI[of _ "w\<lparr>log := log w @ [Info_fetching_from x], ticks := n1,
                          log := log w @ [Info_fetching_from x, Error_fetching x TypeError]\<rparr>"])
       (simp add: Let_def)
qed

lemma feeds_loop_inv:
  assumes "feeds_loop clock parse c fs acc w = (Inr all, w')"
      and "\<And>a. a \<in> set acc \<Longrightarrow> P a" and "\<And>src p e a. make_article src p e = Inr a \<Longrightarrow> P a"
  shows "\<forall>a \<in> set all. P a"
  using assms(1,2)
proof (induction fs arbitrary: acc w)
  case Nil then show ?case by simp
next
  case (Cons u us)
  show ?case
  proof (cases "parse u")
    case (Inl e)
    with Cons.prems(1) have ex: "is_Exception e" by (auto simp: Let_def split: if_splits)
    with Cons.prems(1) Inl
    have "feeds_loop clock parse c us acc
            (w\<lparr>log := log w @ [Info_fetching_from u, Error_fetching u e]\<rparr>) = (Inr all, w')"
      by (simp add: Let_def)
    then show ?thesis by (rule Cons.IH) (use Cons.prems in auto)
  next
    case (Inr feed)
    define src where "src = (case feed_title feed of Some s \<Rightarrow> s | None \<Rightarrow> u)"
    obtain r acc1 n1 where
      el: "entries_loop clock c src (entries feed) acc (ticks w) = (r, acc1, n1)"
      by (cases "entries_loop clock c src (entries feed) acc (ticks w)")
    have "\<forall>a \<in> set (fst (snd (entries_loop clock c src (entries feed) acc (ticks w)))). P a"
      by (rule entries_loop_inv) (use Cons.prems assms(3) in auto)
    then have acc1: "\<And>a. a \<in> set acc1 \<Longrightarrow> P a" using el by simp
    from feeds_loop_parsed[where parse=parse and x=u and xs=us, OF Inr el[unfolded src_def]]
      Cons.prems(1)
    obtain v where "feeds_loop clock parse c us acc1 v = (Inr all, w')"
      by auto
    then show ?thesis by (rule Cons.IH) (use acc1 in auto)
  qed
qed

lemma fetch_recent_news_Inr:
  assumes "fst (fetch_recent_news strict clock parse hours limit self w) = Inr result"
  obtains cutoff_time all_articles w2 sorted_articles fresh w3 where
    "minus_hours (clock (ticks w)) hours = Inr cutoff_time"
    "feeds_loop clock parse cutoff_time (feeds self) [] (w\<lparr>ticks := Suc (ticks w)\<rparr>)
       = (Inr all_articles, w2)"
    "sort_by_published_desc all_articles = Inr sorted_articles"
    "filter_stale_articles strict clock sorted_articles 24 w2 = (Inr fresh, w3)"
    "result = fst (assign_ids 0 (slice_to fresh limit) Map.empty)"
    "fetch_recent_news strict clock parse hours limit self w =
       (Inr result,
        self\<lparr>articles_cache := snd (assign_ids 0 (slice_to fresh limit) Map.empty)\<rparr>,
        w3\<lparr>log := log w3 @ [Info_fetched (length result)]\<rparr>)"
  using assms unfolding fetch_recent_news_def Let_def
  by (auto split: sum.splits prod.splits)

lemma minus_hours_Inr: "minus_hours t h = Inr c \<Longrightarrow> c = t - h * US_PER_HOUR"
  by (auto simp: minus_hours_def Let_def split: if_splits)

lemma filter_stale_articles_Inr:
  assumes "filter_stale_articles strict clock xs h w = (Inr fresh, w')"
  obtains P where "fresh = filter P xs"
proof (cases strict)
  case False
  with assms have "fresh = filter (\<lambda>_. True) xs" by (simp add: filter_stale_articles_def)
  then show ?thesis by (rule that)
next
  case True
  with assms have "fresh = filter (keeps (clock (ticks w) - h * US_PER_HOUR)) xs"
    by (auto simp: filter_stale_articles_def filter_loop_eq minus_hours_def Let_def
             split: if_splits)
  then show ?thesis by (rule that)
qed

lemma sorted_newer_keys:
  assumes "sorted_wrt newer_or_equal xs" and "\<And>a. a \<in> set xs \<Longrightarrow> published a \<noteq> None"
  shows "\<exists>ks. map published xs = map Some ks \<and> sorted_wrt (\<lambda>s t. t \<le> s) ks"
proof (intro exI conjI)
  show "map published xs = map Some (map (\<lambda>a. the (published a)) xs)"
    using assms(2) by (induction xs) auto
  have "sorted_wrt (\<lambda>a b. the (published b) \<le> the (published a)) xs"
    using assms(1)
    by (rule sorted_wrt_mono_rel[rotated])
       (auto simp: newer_or_equal_def split: option.splits)
  then show "sorted_wrt (\<lambda>s t. t \<le> s) (map (\<lambda>a. the (published a)) xs)"
    by (simp add: sorted_wrt_map)
qed

section \<open>The concrete run, evaluated\<close>

lemma example_run:
  "fst (fetch_recent_news True example_clock example_parse 48 50 example_fetcher example_world)
     = Inr example_result"
  by code_simp

lemma example_run_ticks:
  "ticks (snd (snd (fetch_recent_news True example_clock example_parse 48 50
                      example_fetcher example_world))) = 2"
  by code_simp


section \<open>The 24-hour ceiling\<close>

text \<open>
  Claim C1. With the staleness filter enabled, whatever the sources, the entries, the
  clock, \<open>hours\<close> (the recency window) and \<open>limit\<close> are: every article of a list that
  \<open>fetch_recent_news\<close> returns is dated, and its date is not earlier than 24 hours before
  the instant that the filter read from the clock, which is the last reading of the call.
  The window \<open>hours\<close> plays no part, so a window larger than 24 hours lets nothing older
  through.
\<close>

theorem fetch_recent_news_never_stale:
  assumes "fst (fetch_recent_news True clock parse hours limit self w) = Inr result"
      and "a \<in> set result"
  shows "\<exists>t. published a = Some t \<and>
             \<not> t < clock (ticks (snd (snd (fetch_recent_news True clock parse hours limit
                                              self w))) - 1)
                     - 24 * US_PER_HOUR"
proof -
  from assms(1) obtain cutoff_time all_articles w2 sorted_articles fresh w3 where
    f: "sort_by_published_desc all_articles = Inr sorted_articles"
       "filter_stale_articles True clock sorted_articles 24 w2 = (Inr fresh, w3)"
       "result = fst (assign_ids 0 (slice_to fresh limit) Map.empty)"
       "fetch_recent_news True clock parse hours limit self w =
          (Inr result,
           self\<lparr>articles_cache := snd (assign_ids 0 (slice_to fresh limit) Map.empty)\<rparr>,
           w3\<lparr>log := log w3 @ [Info_fetched (length result)]\<rparr>)"
    by (rule fetch_recent_news_Inr)
  from f(2) obtain cutoff where c: "minus_hours (clock (ticks w2)) 24 = Inr cutoff"
    by (cases "minus_hours (clock (ticks w2)) 24") (auto simp: filter_stale_articles_overflow)
  from f(2) have fresh: "fresh = filter (keeps cutoff) sorted_articles"
    and t3: "ticks w3 = Suc (ticks w2)"
    by (auto simp: filter_stale_articles_strict[where clock=clock and w=w2, OF c])
  have cutoff: "cutoff = clock (ticks w2) - 24 * US_PER_HOUR"
    using minus_hours_Inr[OF c] .
  from assms(2) obtain k where k: "k < length (slice_to fresh limit)"
      "a = (slice_to fresh limit ! k)\<lparr>article_id := Some (int k)\<rparr>"
    unfolding f(3) by (auto simp: in_set_conv_nth assign_ids_length assign_ids_nth)
  define b where "b = slice_to fresh limit ! k"
  have "b \<in> set fresh" using k(1) set_slice_to[of fresh limit] by (auto simp: b_def)
  then have b: "b \<in> set sorted_articles" "keeps cutoff b" by (auto simp: fresh)
  then have "published b \<noteq> None"
    using sort_by_published_desc_Inr(3,4)[OF f(1)] by auto
  then obtain t where t: "published b = Some t" by auto
  with b(2) have "\<not> t < cutoff" by (simp add: keeps_def too_old_def)
  moreover have "published a = Some t" using k(2) t by (simp add: b_def)
  ultimately show ?thesis by (simp add: f(4) t3 cutoff)
qed

theorem fetch_recent_news_never_stale_witness:
  "fst (fetch_recent_news True example_clock example_parse 48 50 example_fetcher example_world)
     = Inr example_result
   \<and> example_result ! 1 \<in> set example_result
   \<and> (\<exists>t. published (example_result ! 1) = Some t \<and>
            \<not> t < example_clock (ticks (snd (snd (fetch_recent_news True example_clock
                       example_parse 48 50 example_fetcher example_world))) - 1)
                    - 24 * US_PER_HOUR)"
proof -
  have m: "example_result ! 1 \<in> set example_result" by (simp add: example_result_def)
  from fetch_recent_news_never_stale[OF example_run m] example_run m
  show ?thesis by (intro conjI)
qed

section \<open>Identifiers and order of the result\<close>

text \<open>
  Claim C2. For every input on which \<open>fetch_recent_news\<close> returns a list: the ids of the
  list are 0, 1, ..., length - 1 in list order; every article is dated and the dates
  descend along the list (so the id grows as the date falls); and articles of equal
  date keep the order in which the loop over the feeds collected them: for every
  instant \<open>t\<close>, the returned articles dated \<open>t\<close>, their ids taken off, form a
  subsequence of the collected articles dated \<open>t\<close>.
\<close>

theorem fetch_recent_news_ids_and_order:
  assumes "fst (fetch_recent_news strict clock parse hours limit self w) = Inr result"
  shows "map article_id result = map (\<lambda>k. Some (int k)) [0..<length result]
       \<and> (\<exists>ks. map published result = map Some ks \<and> sorted_wrt (\<lambda>s t. t \<le> s) ks)
       \<and> (\<exists>cutoff_time all_articles w2.
             minus_hours (clock (ticks w)) hours = Inr cutoff_time
           \<and> feeds_loop clock parse cutoff_time (feeds self) [] (w\<lparr>ticks := Suc (ticks w)\<rparr>)
               = (Inr all_articles, w2)
           \<and> (\<forall>t. subseq (map (\<lambda>a. a\<lparr>article_id := None\<rparr>)
                              (filter (\<lambda>a. published a = Some t) result))
                         (filter (\<lambda>a. published a = Some t) all_articles)))"
proof -
  from assms obtain cutoff_time all_articles w2 sorted_articles fresh w3 where
    f: "minus_hours (clock (ticks w)) hours = Inr cutoff_time"
       "feeds_loop clock parse cutoff_time (feeds self) [] (w\<lparr>ticks := Suc (ticks w)\<rparr>)
          = (Inr all_articles, w2)"
       "sort_by_published_desc all_articles = Inr sorted_articles"
       "filter_stale_articles strict clock sorted_articles 24 w2 = (Inr fresh, w3)"
       "result = fst (assign_ids 0 (slice_to fresh limit) Map.empty)"
    by (rule fetch_recent_news_Inr)
  from f(4) obtain P where fresh: "fresh = filter P sorted_articles"
    by (rule filter_stale_articles_Inr)
  define L where "L = slice_to fresh limit"
  have res: "result = fst (assign_ids 0 L Map.empty)" by (simp add: f(5) L_def)
  have sub: "subseq L sorted_articles"
    unfolding L_def fresh
    by (rule subseq_order.order_trans[OF subseq_slice_to]) simp
  have setL: "set L \<subseteq> set all_articles"
    using set_slice_to[of fresh limit] sort_by_published_desc_Inr(3)[OF f(3)]
    by (auto simp: L_def fresh)
  have "\<forall>a \<in> set all_articles. article_id a = None"
    by (rule feeds_loop_inv[OF f(2)]) (simp_all add: make_article_Inr)
  with setL have noid: "\<And>a. a \<in> set L \<Longrightarrow> article_id a = None" by auto
  have dated: "\<And>a. a \<in> set L \<Longrightarrow> published a \<noteq> None"
    using setL sort_by_published_desc_Inr(4)[OF f(3)] by auto
  have "sorted_wrt newer_or_equal L"
    unfolding L_def fresh
    by (intro sorted_wrt_slice_to sorted_wrt_filter sort_by_published_desc_Inr(1)[OF f(3)])
  then have order: "\<exists>ks. map published result = map Some ks \<and> sorted_wrt (\<lambda>s t. t \<le> s) ks"
    using sorted_newer_keys[of L] dated by (simp add: res assign_ids_published)
  have ids: "map article_id result = map (\<lambda>k. Some (int k)) [0..<length result]"
    by (simp add: res assign_ids_ids assign_ids_length)
  have stable: "subseq (map (\<lambda>a. a\<lparr>article_id := None\<rparr>)
                          (filter (\<lambda>a. published a = Some t) result))
                     (filter (\<lambda>a. published a = Some t) all_articles)" for t
  proof -
    have "map (\<lambda>a. a\<lparr>article_id := None\<rparr>) (filter (\<lambda>a. published a = Some t) result)
          = filter (\<lambda>a. published a = Some t) (map (\<lambda>a. a\<lparr>article_id := None\<rparr>) result)"
      by (simp add: filter_map o_def)
    also have "map (\<lambda>a. a\<lparr>article_id := None\<rparr>) result = L"
      unfolding res by (rule assign_ids_strip) (rule noid)
    finally have "map (\<lambda>a. a\<lparr>article_id := None\<rparr>)
                    (filter (\<lambda>a. published a = Some t) result)
          = filter (\<lambda>a. published a = Some t) L" .
    moreover have "subseq (filter (\<lambda>a. published a = Some t) L)
                          (filter (\<lambda>a. published a = Some t) sorted_articles)"
      using sub by (rule subseq_filter)
    ultimately show ?thesis
      by (simp add: sort_by_published_desc_Inr(2)[OF f(3)])
  qed
  from ids order f(1,2) stable show ?thesis by blast
qed

theorem fetch_recent_news_ids_and_order_witness:
  "fst (fetch_recent_news True example_clock example_parse 48 50 example_fetcher example_world)
     = Inr example_result
   \<and> map article_id example_result = map (\<lambda>k. Some (int k)) [0..<length example_result]
   \<and> (\<exists>ks. map published example_result = map Some ks \<and> sorted_wrt (\<lambda>s t. t \<le> s) ks)"
  using fetch_recent_news_ids_and_order[OF example_run] example_run by blast

section \<open>The scenario of the specification\<close>


section \<open>Lookup by id\<close>



section \<open>A source that fails\<close>

lemma feeds_loop_failed:
  assumes "parse x = Inl e" and "is_Exception e"
  shows "feeds_loop clock parse c (x # xs) acc w
           = feeds_loop clock parse c xs acc
               (w\<lparr>log := log w @ [Info_fetching_from x, Error_fetching x e]\<rparr>)"
  using assms by (simp add: Let_def)







lemma make_article_sliceable:
  assumes "entry_summary e \<noteq> Some NotSliceable"
  shows "\<exists>a. make_article src p e = Inr a"
  using assms
  by (auto simp: make_article_def slice_summary_def split: option.splits summary_value.splits)






section \<open>An empty list of sources\<close>

text \<open>
  Claim C6 says that an empty source list, also one that the caller passes to the
  constructor, gives an empty result and the warning that nothing fresh is left. An
  empty list passed to the constructor is falsy, so \<^verbatim>\<open>feeds or RSS_FEEDS\<close> stores the
  configured default instead: with one configured feed the fetcher built from an
  explicit empty list returns two articles and logs no such warning.
\<close>

theorem empty_feeds_argument_counterexample:
  "feeds (NewsFetcher_init [''https://example.org/feed''] (Some [])) = [''https://example.org/feed'']
   \<and> fst (fetch_recent_news True example_clock example_parse 8 50
            (NewsFetcher_init [''https://example.org/feed''] (Some [])) example_world)
       = Inr example_result
   \<and> example_result \<noteq> []
   \<and> Warning_all_filtered_out \<notin> set (log (snd (snd (fetch_recent_news True example_clock
          example_parse 8 50 (NewsFetcher_init [''https://example.org/feed''] (Some []))
          example_world))))"
proof -
  have "feeds (NewsFetcher_init [''https://example.org/feed''] (Some [])) = [''https://example.org/feed'']"
    by (simp add: NewsFetcher_init_def)
  moreover have "fst (fetch_recent_news True example_clock example_parse 8 50
            (NewsFetcher_init [''https://example.org/feed''] (Some [])) example_world)
       = Inr example_result"
    by code_simp
  moreover have "example_result \<noteq> []" by (simp add: example_result_def)
  moreover have "Warning_all_filtered_out \<notin> set (log (snd (snd (fetch_recent_news True example_clock
          example_parse 8 50 (NewsFetcher_init [''https://example.org/feed''] (Some []))
          example_world))))"
    by code_simp
  ultimately show ?thesis by (intro conjI)
qed

text \<open>
  Claim C6, amended. When the list \<open>feeds\<close> that the fetcher holds is empty, the filter is
  enabled and the two cutoffs (the clock's reading minus \<open>hours\<close>, the next reading minus
  24 hours) are representable datetimes, \<open>fetch_recent_news\<close> returns the empty list,
  empties the cache and logs the filter's summary, the warning that everything was
  filtered out and the count 0, and raises nothing. The constructor stores an empty
  list exactly when the configured default is empty and the caller gave no list or an
  empty one.
\<close>

theorem empty_source_list:
  assumes "feeds self = []"
      and "datetime_in_range (clock (ticks w) - hours * US_PER_HOUR)"
      and "datetime_in_range (clock (Suc (ticks w)) - 24 * US_PER_HOUR)"
  shows "fetch_recent_news True clock parse hours limit self w =
           (Inr [], self\<lparr>articles_cache := Map.empty\<rparr>,
            \<lparr>ticks = ticks w + 2,
             log = log w @ [Info_stale_filter 0 0 (clock (Suc (ticks w)) - 24 * US_PER_HOUR),
                            Warning_all_filtered_out, Info_fetched 0]\<rparr>)
       \<and> (feeds (NewsFetcher_init RSS_FEEDS feeds_arg) = []
            \<longleftrightarrow> RSS_FEEDS = [] \<and> (feeds_arg = None \<or> feeds_arg = Some []))"
proof -
  have init: "feeds (NewsFetcher_init RSS_FEEDS feeds_arg) = []
            \<longleftrightarrow> RSS_FEEDS = [] \<and> (feeds_arg = None \<or> feeds_arg = Some [])"
    by (auto simp: NewsFetcher_init_def split: option.splits)
  have c1: "minus_hours (clock (ticks w)) hours = Inr (clock (ticks w) - hours * US_PER_HOUR)"
    using assms(2) by (simp add: minus_hours_def)
  have c2: "minus_hours (clock (Suc (ticks w))) 24 = Inr (clock (Suc (ticks w)) - 24 * US_PER_HOUR)"
    using assms(3) by (simp add: minus_hours_def)
  have so: "sort_by_published_desc [] = Inr []" by (simp add: sort_by_published_desc_def)
  have sl: "slice_to ([]::article list) limit = []" by (simp add: slice_to_def)
  have "fetch_recent_news True clock parse hours limit self w =
           (Inr [], self\<lparr>articles_cache := Map.empty\<rparr>,
            \<lparr>ticks = ticks w + 2,
             log = log w @ [Info_stale_filter 0 0 (clock (Suc (ticks w)) - 24 * US_PER_HOUR),
                            Warning_all_filtered_out, Info_fetched 0]\<rparr>)"
    using assms(1) c1 c2
    by (simp add: fetch_recent_news_def filter_stale_articles_def so sl)
  with init show ?thesis by (rule_tac conjI)
qed

theorem empty_source_list_witness:
  "feeds (NewsFetcher_init [] (Some [])) = []
   \<and> datetime_in_range (example_clock (ticks example_world) - 8 * US_PER_HOUR)
   \<and> datetime_in_range (example_clock (Suc (ticks example_world)) - 24 * US_PER_HOUR)
   \<and> fst (fetch_recent_news True example_clock example_parse 8 50
            (NewsFetcher_init [] (Some [])) example_world) = Inr []
   \<and> Warning_all_filtered_out \<in> set (log (snd (snd (fetch_recent_news True example_clock
          example_parse 8 50 (NewsFetcher_init [] (Some [])) example_world))))"
proof -
  have h1: "feeds (NewsFetcher_init [] (Some [])) = []" by (simp add: NewsFetcher_init_def)
  have h2: "datetime_in_range (example_clock (ticks example_world) - 8 * US_PER_HOUR)"
    by (simp add: datetime_in_range_def example_clock_def example_world_def example_now_def
                  US_PER_HOUR_def MAXORDINAL_def US_PER_DAY_def)
  have h3: "datetime_in_range (example_clock (Suc (ticks example_world)) - 24 * US_PER_HOUR)"
    by (simp add: datetime_in_range_def example_clock_def example_world_def example_now_def
                  US_PER_HOUR_def MAXORDINAL_def US_PER_DAY_def)
  from empty_source_list[OF h1 h2 h3, of example_parse 50] h1 h2 h3
  show ?thesis by simp
qed

section \<open>The stale-year rule\<close>

lemma word_boundary_occurrence:
  assumes "lit \<noteq> []" and "is_word_char (hd lit)" and "is_word_char (last lit)"
  shows "word_boundary (pre @ lit @ post) (length pre) \<longleftrightarrow> \<not> starts_with_word_char (rev pre)"
    and "word_boundary (pre @ lit @ post) (length pre + length lit)
           \<longleftrightarrow> \<not> starts_with_word_char post"
proof -
  let ?s = "pre @ lit @ post"
  have a: "length pre < length ?s" using assms(1) by simp
  have b: "?s ! length pre = hd lit" using assms(1) by (simp add: nth_append hd_conv_nth)
  have c: "(0 < length pre \<and> is_word_char (?s ! (length pre - 1)))
             \<longleftrightarrow> starts_with_word_char (rev pre)"
  proof (cases pre rule: rev_cases)
    case Nil then show ?thesis by (simp add: starts_with_word_char_def)
  next
    case (snoc ys y)
    then show ?thesis by (simp add: starts_with_word_char_def nth_append)
  qed
  show "word_boundary ?s (length pre) \<longleftrightarrow> \<not> starts_with_word_char (rev pre)"
    unfolding word_boundary_def c using a b assms(2) by simp
  have d: "0 < length pre + length lit" using assms(1) by simp
  have e: "?s ! (length pre + length lit - 1) = last lit"
  proof (cases lit rule: rev_cases)
    case Nil with assms(1) show ?thesis by simp
  next
    case (snoc ys y)
    have "(pre @ (ys @ [y]) @ post) ! (length pre + length ys) = y"
      by (simp add: nth_append)
    then show ?thesis by (simp add: snoc)
  qed
  have f: "(length pre + length lit < length ?s \<and> is_word_char (?s ! (length pre + length lit)))
             \<longleftrightarrow> starts_with_word_char post"
    by (cases post) (simp_all add: starts_with_word_char_def nth_append)
  show "word_boundary ?s (length pre + length lit) \<longleftrightarrow> \<not> starts_with_word_char post"
    unfolding word_boundary_def f using d e assms(3) by simp
qed

lemma re_search_word_iff:
  assumes "lit \<noteq> []" and "is_word_char (hd lit)" and "is_word_char (last lit)"
  shows "re_search_word lit s \<longleftrightarrow> whole_word_in lit s"
proof
  assume "re_search_word lit s"
  then have "\<exists>i \<in> set [0..<Suc (length s)]. word_boundary s i
      \<and> take (length lit) (drop i s) = lit \<and> word_boundary s (i + length lit)"
    unfolding re_search_word_def list_ex_iff .
  then obtain i where "i \<in> set [0..<Suc (length s)]" and i': "word_boundary s i"
      "take (length lit) (drop i s) = lit" "word_boundary s (i + length lit)"
    by blast
  then have "i \<le> length s" by auto
  note i = this i'
  define pre where "pre = take i s"
  define post where "post = drop (i + length lit) s"
  have "drop i s = take (length lit) (drop i s) @ drop (length lit) (drop i s)"
    by (rule append_take_drop_id[symmetric])
  then have "drop i s = lit @ post" by (simp add: i(3) post_def add.commute)
  then have s: "s = pre @ lit @ post" by (metis append_take_drop_id pre_def)
  have len: "length pre = i" using i(1) by (simp add: pre_def)
  from i(2,4) word_boundary_occurrence[OF assms, of pre post]
  have "\<not> starts_with_word_char (rev pre)" "\<not> starts_with_word_char post"
    by (simp_all add: s len[symmetric])
  with s show "whole_word_in lit s" unfolding whole_word_in_def by blast
next
  assume "whole_word_in lit s"
  then obtain pre post where s: "s = pre @ lit @ post"
    and b: "\<not> starts_with_word_char (rev pre)" "\<not> starts_with_word_char post"
    unfolding whole_word_in_def by blast
  have "length pre \<in> set [0..<Suc (length s)]" by (simp add: s)
  moreover have "take (length lit) (drop (length pre) s) = lit" by (simp add: s)
  ultimately show "re_search_word lit s"
    unfolding re_search_word_def list_ex_iff
    using word_boundary_occurrence[OF assms, of pre post] b s by blast
qed

lemma stale_year_found_iff:
  "stale_year_found a = None
     \<longleftrightarrow> \<not> (\<exists>lit \<in> set STALE_YEAR_PATTERNS. whole_word_in lit (text_to_check a))"
proof -
  have "re_search_word lit s \<longleftrightarrow> whole_word_in lit s" if "lit \<in> set STALE_YEAR_PATTERNS" for lit s
    using that by (intro re_search_word_iff) (auto simp: STALE_YEAR_PATTERNS_def is_word_char_def)
  then show ?thesis
    unfolding stale_year_found_def find_None_iff by blast
qed

text \<open>
  Claim C7 reads the rule as a denylist of substrings of the concatenation of title and
  summary. The patterns are \<^verbatim>\<open>\b2024\b\<close>, \<^verbatim>\<open>\b2023\b\<close> and \<^verbatim>\<open>\b2022\b\<close>, matched in
  \<^verbatim>\<open>f"{title} {summary}"\<close>: the article titled "Flight 20245 delayed" contains the
  marker 2024 as a substring, passes the age check, and is kept.
\<close>

theorem stale_year_substring_counterexample:
  "spec_stale_year_match flight_article
   \<and> \<not> too_old (example_clock 0 - 24 * US_PER_HOUR) flight_article
   \<and> fst (filter_stale_articles True example_clock [flight_article] 24 example_world)
       = Inr [flight_article]"
proof -
  have "spec_stale_year_match flight_article" by code_simp
  moreover have "\<not> too_old (example_clock 0 - 24 * US_PER_HOUR) flight_article" by code_simp
  moreover have "fst (filter_stale_articles True example_clock [flight_article] 24 example_world)
       = Inr [flight_article]" by code_simp
  ultimately show ?thesis by (intro conjI)
qed

text \<open>
  Claim C7, amended. With the filter enabled and a representable cutoff, the filter
  returns, in their order, exactly the articles that are not older than the cutoff and
  whose text (title, one space, summary) has no whole-word occurrence of 2024, 2023 or
  2022; an occurrence is whole-word when no letter, digit or underscore stands directly
  before or after it. Every other article is rejected once: the summary record counts
  as rejected the articles that were not kept, and the loop writes one debug record for
  each of them.
\<close>

theorem stale_year_rule:
  assumes "minus_hours (clock (ticks w)) max_age_hours = Inr cutoff"
  shows "let fresh = filter (\<lambda>a. \<not> too_old cutoff a
                               \<and> \<not> (\<exists>lit \<in> set STALE_YEAR_PATTERNS.
                                        whole_word_in lit (text_to_check a))) articles
         in \<exists>dbg. filter_stale_articles True clock articles max_age_hours w
                    = (Inr fresh,
                       \<lparr>ticks = Suc (ticks w),
                        log = log w @ dbg
                              @ [Info_stale_filter (length fresh) (length articles - length fresh)
                                   cutoff]
                              @ (if fresh = [] then [Warning_all_filtered_out] else [])\<rparr>)
                  \<and> length dbg = length articles - length fresh"
proof -
  have k: "keeps cutoff = (\<lambda>a. \<not> too_old cutoff a
                               \<and> \<not> (\<exists>lit \<in> set STALE_YEAR_PATTERNS.
                                        whole_word_in lit (text_to_check a)))"
    by (rule ext) (simp add: keeps_def stale_year_found_iff)
  have one: "length (reject_log cutoff a) = (if keeps cutoff a then 0 else 1)" for a
    by (auto simp: reject_log_def keeps_def split: option.splits)
  have rej: "length (filter (\<lambda>a. \<not> keeps cutoff a) articles)
               = length articles - length (filter (keeps cutoff) articles)"
    using sum_length_filter_compl[of "keeps cutoff" articles] by simp
  have dbg: "length (concat (map (reject_log cutoff) articles))
               = length (filter (\<lambda>a. \<not> keeps cutoff a) articles)"
    by (induction articles) (simp_all add: one)
  show ?thesis
    unfolding Let_def k[symmetric]
    by (rule exI[of _ "concat (map (reject_log cutoff) articles)"])
       (simp add: filter_stale_articles_strict[where clock=clock and w=w, OF assms] rej dbg)
qed

theorem stale_year_rule_witness:
  "minus_hours (example_clock (ticks example_world)) 24 = Inr (example_now - 24 * US_PER_HOUR)
   \<and> filter (\<lambda>a. \<not> too_old (example_now - 24 * US_PER_HOUR) a
                   \<and> \<not> (\<exists>lit \<in> set STALE_YEAR_PATTERNS. whole_word_in lit (text_to_check a)))
        [flight_article, retrospective_article] = [flight_article]
   \<and> Info_stale_filter 1 1 (example_now - 24 * US_PER_HOUR)
        \<in> set (log (snd (filter_stale_articles True example_clock
                            [flight_article, retrospective_article] 24 example_world)))"
proof -
  let ?fresh = "filter (\<lambda>a. \<not> too_old (example_now - 24 * US_PER_HOUR) a
                   \<and> \<not> (\<exists>lit \<in> set STALE_YEAR_PATTERNS. whole_word_in lit (text_to_check a)))
        [flight_article, retrospective_article]"
  have h: "minus_hours (example_clock (ticks example_world)) 24
             = Inr (example_now - 24 * US_PER_HOUR)"
    by (simp add: minus_hours_def datetime_in_range_def example_clock_def example_world_def
                  example_now_def US_PER_HOUR_def MAXORDINAL_def US_PER_DAY_def)
  from stale_year_rule[where clock=example_clock and w=example_world, OF h,
                       of "[flight_article, retrospective_article]"]
  obtain dbg where run: "filter_stale_articles True example_clock
                     [flight_article, retrospective_article] 24 example_world
      = (Inr ?fresh,
         \<lparr>ticks = Suc (ticks example_world),
          log = log example_world @ dbg
                @ [Info_stale_filter (length ?fresh)
                     (length [flight_article, retrospective_article] - length ?fresh)
                     (example_now - 24 * US_PER_HOUR)]
                @ (if ?fresh = [] then [Warning_all_filtered_out] else [])\<rparr>)"
    unfolding Let_def by blast
  have ev: "fst (filter_stale_articles True example_clock
                   [flight_article, retrospective_article] 24 example_world)
              = Inr [flight_article]"
    by code_simp
  have fresh: "?fresh = [flight_article]"
    using ev unfolding run by simp
  have "Info_stale_filter 1 1 (example_now - 24 * US_PER_HOUR)
        \<in> set (log (snd (filter_stale_articles True example_clock
                            [flight_article, retrospective_article] 24 example_world)))"
    unfolding run fresh by simp
  with h fresh show ?thesis by (intro conjI)
qed

section \<open>Entries without a date\<close>

lemma parse_date_ticks: "parse_date clock e n = (p, n') \<Longrightarrow> n \<le> n'"
  by (auto simp: parse_date_def split: option.splits)

lemma entries_loop_grows:
  "entries_loop clock c src es acc n = (r, acc', n') \<Longrightarrow> n \<le> n' \<and> set acc \<subseteq> set acc'"
proof (induction es arbitrary: acc n)
  case Nil then show ?case by simp
next
  case (Cons e es)
  obtain p n1 where pd: "parse_date clock e n = (p, n1)" by (cases "parse_date clock e n")
  have n1: "n \<le> n1" using pd by (rule parse_date_ticks)
  show ?case
  proof (cases "p > c")
    case True
    show ?thesis
    proof (cases "make_article src p e")
      case (Inl ex)
      with Cons.prems pd True n1 show ?thesis by simp
    next
      case (Inr a)
      with Cons.prems pd True
      have "entries_loop clock c src es (acc @ [a]) n1 = (r, acc', n')" by simp
      from Cons.IH[OF this] n1 show ?thesis by auto
    qed
  next
    case False
    with Cons.prems pd have "entries_loop clock c src es acc n1 = (r, acc', n')" by simp
    from Cons.IH[OF this] n1 show ?thesis by auto
  qed
qed

lemma entries_loop_undated:
  assumes "try_field (published_parsed e) = None" and "try_field (updated_parsed e) = None"
      and "entry_summary e \<noteq> Some NotSliceable"
      and "e \<in> set es"
      and "\<And>x. x \<in> set (takeWhile (\<lambda>x. x \<noteq> e) es) \<Longrightarrow> entry_summary x \<noteq> Some NotSliceable"
      and "\<And>k. n \<le> k \<Longrightarrow> c < clock k"
      and "entries_loop clock c src es acc n = (r, acc', n')"
  shows "\<exists>k a. n \<le> k \<and> k < n' \<and> make_article src (clock k) e = Inr a \<and> a \<in> set acc'"
  using assms(4-7)
proof (induction es arbitrary: acc n)
  case Nil then show ?case by simp
next
  case (Cons x xs)
  obtain p n1 where pd: "parse_date clock x n = (p, n1)" by (cases "parse_date clock x n")
  have n1: "n \<le> n1" using pd by (rule parse_date_ticks)
  show ?case
  proof (cases "x = e")
    case True
    from make_article_sliceable[of x src p] True assms(3)
    obtain b where b: "make_article src p x = Inr b" by auto
    from True have p: "p = clock n" "n1 = Suc n"
      using pd assms(1,2) by (simp_all add: parse_date_def)
    have "c < clock n" using Cons.prems(3) by simp
    with Cons.prems(4) pd p b
    have "entries_loop clock c src xs (acc @ [b]) (Suc n) = (r, acc', n')" by simp
    from entries_loop_grows[OF this] have "Suc n \<le> n'" "b \<in> set acc'" by auto
    with b p True show ?thesis by (intro exI[of _ n] exI[of _ b]) simp
  next
    case False
    with Cons.prems(1) have mem: "e \<in> set xs" by simp
    from make_article_sliceable[of x src p] False Cons.prems(2)
    obtain b where b: "make_article src p x = Inr b" by auto
    have ok: "\<And>y. y \<in> set (takeWhile (\<lambda>x. x \<noteq> e) xs)
               \<Longrightarrow> entry_summary y \<noteq> Some NotSliceable"
      using Cons.prems(2) False by simp
    have late: "\<And>k. n1 \<le> k \<Longrightarrow> c < clock k" using Cons.prems(3) n1 by simp
    from Cons.prems(4) pd b
    have "\<exists>acc1. entries_loop clock c src xs acc1 n1 = (r, acc', n')"
      by (auto split: if_splits)
    then obtain acc1 where "entries_loop clock c src xs acc1 n1 = (r, acc', n')" ..
    from Cons.IH[OF mem ok late this]
    obtain k a where "n1 \<le> k" "k < n'" "make_article src (clock k) e = Inr a" "a \<in> set acc'"
      by blast
    with n1 show ?thesis by (intro exI[of _ k] exI[of _ a]) simp
  qed
qed

lemma feeds_loop_grows:
  "feeds_loop clock parse c fs acc w = (Inr all, w') \<Longrightarrow> ticks w \<le> ticks w' \<and> set acc \<subseteq> set all"
proof (induction fs arbitrary: acc w)
  case Nil then show ?case by simp
next
  case (Cons x xs)
  show ?case
  proof (cases "parse x")
    case (Inl ex)
    with Cons.prems have "is_Exception ex" by (auto simp: Let_def split: if_splits)
    from Cons.prems[unfolded feeds_loop_failed[where parse=parse and x=x, OF Inl this]]
    have "ticks (w\<lparr>log := log w @ [Info_fetching_from x, Error_fetching x ex]\<rparr>) \<le> ticks w'
          \<and> set acc \<subseteq> set all"
      by (rule Cons.IH)
    then show ?thesis by simp
  next
    case (Inr feed)
    obtain r1 acc1 n1 where
      el: "entries_loop clock c (case feed_title feed of Some s \<Rightarrow> s | None \<Rightarrow> x)
             (entries feed) acc (ticks w) = (r1, acc1, n1)"
      using prod_cases3 by blast
    from feeds_loop_parsed[where parse=parse and x=x and xs=xs and w=w, OF Inr el]
    obtain v where v: "ticks v = n1"
      "feeds_loop clock parse c (x # xs) acc w = feeds_loop clock parse c xs acc1 v" by blast
    from Cons.prems[unfolded v(2)] have "ticks v \<le> ticks w' \<and> set acc1 \<subseteq> set all"
      by (rule Cons.IH)
    with entries_loop_grows[OF el] v(1) show ?thesis by auto
  qed
qed

lemma feeds_loop_undated:
  assumes "try_field (published_parsed e) = None" and "try_field (updated_parsed e) = None"
      and "u \<in> set fs" and "parse u = Inr fd" and "e \<in> set (entries fd)"
      and "entry_summary e \<noteq> Some NotSliceable"
      and "\<And>x. x \<in> set (takeWhile (\<lambda>x. x \<noteq> e) (entries fd))
             \<Longrightarrow> entry_summary x \<noteq> Some NotSliceable"
      and "\<And>k. ticks w \<le> k \<Longrightarrow> c < clock k"
      and "feeds_loop clock parse c fs acc w = (Inr all, w')"
  shows "\<exists>k a. ticks w \<le> k \<and> k < ticks w'
           \<and> make_article (case feed_title fd of Some s \<Rightarrow> s | None \<Rightarrow> u) (clock k) e = Inr a
           \<and> a \<in> set all"
  using assms(3,8,9)
proof (induction fs arbitrary: acc w)
  case Nil then show ?case by simp
next
  case (Cons x xs)
  let ?src = "case feed_title fd of Some s \<Rightarrow> s | None \<Rightarrow> u"
  show ?case
  proof (cases "x = u")
    case True
    obtain r1 acc1 n1 where
      el: "entries_loop clock c ?src (entries fd) acc (ticks w) = (r1, acc1, n1)"
      using prod_cases3 by blast
    from entries_loop_undated[OF assms(1,2,6,5,7) _ el] Cons.prems(2)
    obtain k a where k: "ticks w \<le> k" "k < n1" "make_article ?src (clock k) e = Inr a"
      "a \<in> set acc1"
      by blast
    from feeds_loop_parsed[where parse=parse and x=u and xs=xs and w=w, OF assms(4) el]
    obtain v where v: "ticks v = n1"
      "feeds_loop clock parse c (u # xs) acc w = feeds_loop clock parse c xs acc1 v" by blast
    from Cons.prems(3)[unfolded True v(2)] have "ticks v \<le> ticks w' \<and> set acc1 \<subseteq> set all"
      by (rule feeds_loop_grows)
    with k v(1) show ?thesis by (intro exI[of _ k] exI[of _ a]) auto
  next
    case False
    with Cons.prems(1) have mem: "u \<in> set xs" by simp
    show ?thesis
    proof (cases "parse x")
      case (Inl ex)
      with Cons.prems(3) have "is_Exception ex" by (auto simp: Let_def split: if_splits)
      note r = Cons.prems(3)[unfolded feeds_loop_failed[where parse=parse and x=x, OF Inl this]]
      have "\<And>k. ticks (w\<lparr>log := log w @ [Info_fetching_from x, Error_fetching x ex]\<rparr>) \<le> k
               \<Longrightarrow> c < clock k"
        using Cons.prems(2) by simp
      from Cons.IH[OF mem this r] show ?thesis by simp
    next
      case (Inr feed)
      obtain r1 acc1 n1 where
        el: "entries_loop clock c (case feed_title feed of Some s \<Rightarrow> s | None \<Rightarrow> x)
               (entries feed) acc (ticks w) = (r1, acc1, n1)"
        using prod_cases3 by blast
      have n1: "ticks w \<le> n1" using entries_loop_grows[OF el] by simp
      from feeds_loop_parsed[where parse=parse and x=x and xs=xs and w=w, OF Inr el]
      obtain v where v: "ticks v = n1"
        "feeds_loop clock parse c (x # xs) acc w = feeds_loop clock parse c xs acc1 v" by blast
      have late: "\<And>k. ticks v \<le> k \<Longrightarrow> c < clock k" using Cons.prems(2) n1 v(1) by simp
      from Cons.IH[OF mem late Cons.prems(3)[unfolded v(2)]]
      obtain k a where "ticks v \<le> k" "k < ticks w'"
        "make_article ?src (clock k) e = Inr a" "a \<in> set all"
        by blast
      with n1 v(1) show ?thesis by (intro exI[of _ k] exI[of _ a]) simp
    qed
  qed
qed

text \<open>
  Claim C9 says that an entry without a parseable date always passes the recency filter
  and the age check. It is stamped with the clock's reading at the moment it is parsed
  and then compared like any other entry: with a window of -1 hours the cutoff lies an
  hour after the first reading, and the undated entry is dropped.
\<close>

theorem undated_entry_dropped_counterexample:
  "try_field (published_parsed undated_entry) = None
   \<and> try_field (updated_parsed undated_entry) = None
   \<and> fst (fetch_recent_news True example_clock undated_parse (- 1) 50 example_fetcher
            example_world) = Inr []"
proof -
  have "try_field (published_parsed undated_entry) = None" by code_simp
  moreover have "try_field (updated_parsed undated_entry) = None" by code_simp
  moreover have "fst (fetch_recent_news True example_clock undated_parse (- 1) 50 example_fetcher
            example_world) = Inr []" by code_simp
  ultimately show ?thesis by (intro conjI)
qed

text \<open>
  Claim C9, amended. The date of an entry is its \<open>published_parsed\<close> when the constructor
  accepts it, else its \<open>updated_parsed\<close> when the constructor accepts it, else the clock's
  reading at that moment; \<open>parse_date\<close> has no error result. In a call that returns, with
  the filter enabled, an entry for which both fields fail and that the loop reaches and
  turns into an article (its summary and those of the entries before it in the feed can
  be sliced) is stamped with a reading \<open>clock k\<close> taken during the loop over the feeds. If the window \<open>hours\<close> is positive and
  the clock does not go back, the entry's article is among the collected articles (it
  passed the recency filter); if moreover the filter reads the clock at most 24 hours
  after the first reading of the call, the age check of the filter does not reject it.
  The true age of the entry plays no part.
\<close>

theorem undated_entry_passes:
  assumes "try_field (published_parsed e) = None" and "try_field (updated_parsed e) = None"
      and "u \<in> set (feeds self)" and "parse u = Inr fd" and "e \<in> set (entries fd)"
      and "entry_summary e \<noteq> Some NotSliceable"
      and "\<forall>x \<in> set (takeWhile (\<lambda>x. x \<noteq> e) (entries fd)).
             entry_summary x \<noteq> Some NotSliceable"
      and "fst (fetch_recent_news True clock parse hours limit self w) = Inr result"
      and "0 < hours"
      and "\<forall>i j. i \<le> j \<longrightarrow> clock i \<le> clock j"
      and "clock (ticks (snd (snd (fetch_recent_news True clock parse hours limit self w))) - 1)
             \<le> clock (ticks w) + 24 * US_PER_HOUR"
  shows "(\<exists>cutoff_time all_articles w2 k a.
            minus_hours (clock (ticks w)) hours = Inr cutoff_time
          \<and> feeds_loop clock parse cutoff_time (feeds self) [] (w\<lparr>ticks := Suc (ticks w)\<rparr>)
              = (Inr all_articles, w2)
          \<and> ticks w < k \<and> k < ticks w2
          \<and> parse_date clock e k = (clock k, Suc k)
          \<and> make_article (case feed_title fd of Some s \<Rightarrow> s | None \<Rightarrow> u) (clock k) e = Inr a
          \<and> a \<in> set all_articles
          \<and> \<not> too_old (clock (ticks w2) - 24 * US_PER_HOUR) a)
       \<and> fst (parse_date clock e' n') =
           (case try_field (published_parsed e') of
              Some t \<Rightarrow> t
            | None \<Rightarrow> (case try_field (updated_parsed e') of Some t \<Rightarrow> t | None \<Rightarrow> clock n'))"
proof -
  let ?src = "case feed_title fd of Some s \<Rightarrow> s | None \<Rightarrow> u"
  from assms(8) obtain cutoff_time all_articles w2 sorted_articles fresh w3 where
    f: "minus_hours (clock (ticks w)) hours = Inr cutoff_time"
       "feeds_loop clock parse cutoff_time (feeds self) [] (w\<lparr>ticks := Suc (ticks w)\<rparr>)
          = (Inr all_articles, w2)"
       "filter_stale_articles True clock sorted_articles 24 w2 = (Inr fresh, w3)"
       "fetch_recent_news True clock parse hours limit self w =
          (Inr result,
           self\<lparr>articles_cache := snd (assign_ids 0 (slice_to fresh limit) Map.empty)\<rparr>,
           w3\<lparr>log := log w3 @ [Info_fetched (length result)]\<rparr>)"
    by (rule fetch_recent_news_Inr)
  from f(3) obtain cutoff where c: "minus_hours (clock (ticks w2)) 24 = Inr cutoff"
    by (cases "minus_hours (clock (ticks w2)) 24") (auto simp: filter_stale_articles_overflow)
  from f(3) have t3: "ticks w3 = Suc (ticks w2)"
    by (auto simp: filter_stale_articles_strict[where clock=clock and w=w2, OF c])
  have drift: "clock (ticks w2) \<le> clock (ticks w) + 24 * US_PER_HOUR"
    using assms(11) by (simp add: f(4) t3)
  have ct: "cutoff_time = clock (ticks w) - hours * US_PER_HOUR"
    using f(1) by (rule minus_hours_Inr)
  have pos: "0 < hours * US_PER_HOUR" using assms(9) by (simp add: US_PER_HOUR_def)
  have late: "cutoff_time < clock k" if "ticks (w\<lparr>ticks := Suc (ticks w)\<rparr>) \<le> k" for k
  proof -
    from that have "ticks w \<le> k" by simp
    with assms(10) have "clock (ticks w) \<le> clock k" by blast
    with ct pos show ?thesis by simp
  qed
  have ok: "\<And>x. x \<in> set (takeWhile (\<lambda>x. x \<noteq> e) (entries fd))
              \<Longrightarrow> entry_summary x \<noteq> Some NotSliceable"
    using assms(7) by blast
  from feeds_loop_undated[where parse=parse and u=u, OF assms(1,2,3,4,5,6) ok late f(2)]
  obtain k a where k: "Suc (ticks w) \<le> k" "k < ticks w2"
      "make_article ?src (clock k) e = Inr a" "a \<in> set all_articles"
    by auto
  have pd: "parse_date clock e k = (clock k, Suc k)"
    using assms(1,2) by (simp add: parse_date_def)
  have "clock (ticks w) \<le> clock k" using assms(10) k(1) by simp
  with drift have age: "\<not> too_old (clock (ticks w2) - 24 * US_PER_HOUR) a"
    using make_article_Inr(1)[OF k(3)] by (simp add: too_old_def)
  have chain: "fst (parse_date clock e' n') =
           (case try_field (published_parsed e') of
              Some t \<Rightarrow> t
            | None \<Rightarrow> (case try_field (updated_parsed e') of Some t \<Rightarrow> t | None \<Rightarrow> clock n'))"
    by (simp add: parse_date_def split: option.splits)
  from k(1) have "ticks w < k" by simp
  with f(1,2) k(2,3,4) pd age chain show ?thesis by blast
qed

theorem undated_entry_passes_witness:
  "try_field (published_parsed undated_entry) = None
   \<and> try_field (updated_parsed undated_entry) = None
   \<and> ''https://example.org/feed'' \<in> set (feeds example_fetcher)
   \<and> undated_parse ''https://example.org/feed''
       = Inr \<lparr>feed_title = None, entries = [undated_entry]\<rparr>
   \<and> undated_entry \<in> set (entries \<lparr>feed_title = None, entries = [undated_entry]\<rparr>)
   \<and> entry_summary undated_entry = Some (Text ''First printed long ago.'')
   \<and> takeWhile (\<lambda>x. x \<noteq> undated_entry)
         (entries \<lparr>feed_title = None, entries = [undated_entry]\<rparr>) = []
   \<and> make_article ''https://example.org/feed'' (example_clock 1) undated_entry
       = Inr ((example_result ! 0)
                \<lparr>title := Some ''Archive piece'', link := ''https://example.org/6'',
                 source := ''https://example.org/feed'', published := Some (example_clock 1),
                 summary := Some ''First printed long ago.'', article_id := None\<rparr>)
   \<and> fst (fetch_recent_news True example_clock undated_parse 8 50 example_fetcher example_world)
       = Inr [(example_result ! 0)
                \<lparr>title := Some ''Archive piece'', link := ''https://example.org/6'',
                 source := ''https://example.org/feed'', published := Some (example_clock 1),
                 summary := Some ''First printed long ago.'', article_id := Some 0\<rparr>]
   \<and> (0::int) < 8
   \<and> example_clock 0 \<le> example_clock 1 \<and> example_clock 1 \<le> example_clock 2
   \<and> example_clock (ticks (snd (snd (fetch_recent_news True example_clock undated_parse 8 50
                                         example_fetcher example_world))) - 1)
       \<le> example_clock (ticks example_world) + 24 * US_PER_HOUR
   \<and> (\<exists>cutoff_time all_articles w2 k a.
          minus_hours (example_clock (ticks example_world)) 8 = Inr cutoff_time
        \<and> feeds_loop example_clock undated_parse cutoff_time (feeds example_fetcher) []
              (example_world\<lparr>ticks := Suc (ticks example_world)\<rparr>)
            = (Inr all_articles, w2)
        \<and> ticks example_world < k \<and> k < ticks w2
        \<and> parse_date example_clock undated_entry k = (example_clock k, Suc k)
        \<and> make_article ''https://example.org/feed'' (example_clock k) undated_entry = Inr a
        \<and> a \<in> set all_articles
        \<and> \<not> too_old (example_clock (ticks w2) - 24 * US_PER_HOUR) a)"
proof -
  let ?fd = "\<lparr>feed_title = None, entries = [undated_entry]\<rparr>"
  have h1: "try_field (published_parsed undated_entry) = None" by code_simp
  have h2: "try_field (updated_parsed undated_entry) = None" by code_simp
  have h3: "''https://example.org/feed'' \<in> set (feeds example_fetcher)"
    by (simp add: example_fetcher_def)
  have h4: "undated_parse ''https://example.org/feed'' = Inr ?fd"
    by (simp add: undated_parse_def)
  have h5: "undated_entry \<in> set (entries ?fd)" by simp
  have s1: "entry_summary undated_entry = Some (Text ''First printed long ago.'')"
    by (simp add: undated_entry_def)
  then have h6: "entry_summary undated_entry \<noteq> Some NotSliceable" by simp
  have h6': "\<forall>x \<in> set (takeWhile (\<lambda>x. x \<noteq> undated_entry) (entries ?fd)).
               entry_summary x \<noteq> Some NotSliceable"
    by simp
  have tw: "takeWhile (\<lambda>x. x \<noteq> undated_entry) (entries ?fd) = []" by simp
  have m1: "make_article ''https://example.org/feed'' (example_clock 1) undated_entry
       = Inr ((example_result ! 0)
                \<lparr>title := Some ''Archive piece'', link := ''https://example.org/6'',
                 source := ''https://example.org/feed'', published := Some (example_clock 1),
                 summary := Some ''First printed long ago.'', article_id := None\<rparr>)"
    by code_simp
  have h7: "fst (fetch_recent_news True example_clock undated_parse 8 50 example_fetcher
                   example_world)
       = Inr [(example_result ! 0)
                \<lparr>title := Some ''Archive piece'', link := ''https://example.org/6'',
                 source := ''https://example.org/feed'', published := Some (example_clock 1),
                 summary := Some ''First printed long ago.'', article_id := Some 0\<rparr>]"
    by code_simp
  have h8: "(0::int) < 8" by simp
  have h9: "\<forall>i j. i \<le> j \<longrightarrow> example_clock i \<le> example_clock j"
    by (simp add: example_clock_def)
  have t: "ticks (snd (snd (fetch_recent_news True example_clock undated_parse 8 50
                              example_fetcher example_world))) = 3"
    by code_simp
  have h10: "example_clock (ticks (snd (snd (fetch_recent_news True example_clock undated_parse
               8 50 example_fetcher example_world))) - 1)
       \<le> example_clock (ticks example_world) + 24 * US_PER_HOUR"
    unfolding t by (simp add: example_clock_def US_PER_HOUR_def)
  note r = undated_entry_passes[where parse=undated_parse and u="''https://example.org/feed''"
             and clock=example_clock and fd="?fd" and e=undated_entry and self=example_fetcher
             and w=example_world and hours=8 and limit=50,
             OF h1 h2 h3 h4 h5 h6 h6' h7 h8 h9 h10, THEN conjunct1]
  have s: "(case feed_title ?fd of Some s \<Rightarrow> s | None \<Rightarrow> ''https://example.org/feed'')
             = ''https://example.org/feed''"
    by simp
  have m: "example_clock 0 \<le> example_clock 1" "example_clock 1 \<le> example_clock 2"
    by (simp_all add: example_clock_def)
  from r[unfolded s] h1 h2 h3 h4 h5 s1 tw m1 h7 h8 m h10 show ?thesis by (intro conjI)
qed

section \<open>The summary is cut before the filter sees it\<close>

lemma make_article_truncate: "make_article src p (truncate_summary e) = make_article src p e"
proof (cases "entry_summary e")
  case None
  then show ?thesis by (simp add: make_article_def truncate_summary_def slice_summary_def)
next
  case (Some v)
  then show ?thesis
    by (cases v) (simp_all add: make_article_def truncate_summary_def slice_summary_def)
qed

lemma parse_date_truncate: "parse_date clock (truncate_summary e) n = parse_date clock e n"
proof -
  have "published_parsed (truncate_summary e) = published_parsed e"
       "updated_parsed (truncate_summary e) = updated_parsed e"
    by (simp_all add: truncate_summary_def)
  then show ?thesis by (simp only: parse_date_def)
qed

lemma entries_loop_truncate:
  "entries_loop clock c src (map truncate_summary es) acc n = entries_loop clock c src es acc n"
  by (induction es arbitrary: acc n)
     (simp_all add: make_article_truncate parse_date_truncate split_beta split: sum.splits)

lemma feeds_loop_truncate:
  "feeds_loop clock (truncate_feed parse) c fs acc w = feeds_loop clock parse c fs acc w"
proof (induction fs arbitrary: acc w)
  case Nil show ?case by simp
next
  case (Cons x xs)
  show ?case
  proof (cases "parse x")
    case (Inl e)
    then have "truncate_feed parse x = Inl e" by (simp add: truncate_feed_def)
    with Inl show ?thesis by (simp add: Let_def Cons)
  next
    case (Inr fd)
    then have "truncate_feed parse x = Inr (fd\<lparr>entries := map truncate_summary (entries fd)\<rparr>)"
      by (simp add: truncate_feed_def)
    with Inr show ?thesis
      by (simp add: Let_def entries_loop_truncate Cons split: prod.splits option.splits)
  qed
qed

lemma contains_substringI:
  assumes "i \<le> length s" and "take (length lit) (drop i s) = lit"
  shows "contains_substring lit s"
proof -
  from assms(1) have "i \<in> set [0..<Suc (length s)]" by auto
  with assms(2) show ?thesis unfolding contains_substring_def list_ex_iff by blast
qed

lemma truncate_summary_idem: "truncate_summary (truncate_summary e) = truncate_summary e"
proof (cases "entry_summary e")
  case None
  then show ?thesis by (simp add: truncate_summary_def)
next
  case (Some v)
  then show ?thesis by (cases v) (simp_all add: truncate_summary_def)
qed

lemma truncate_feed_idem: "truncate_feed (truncate_feed parse) = truncate_feed parse"
proof
  fix url
  have "map truncate_summary (map truncate_summary es) = map truncate_summary es" for es
    by (induction es) (simp_all add: truncate_summary_idem)
  then show "truncate_feed (truncate_feed parse) url = truncate_feed parse url"
    by (cases "parse url") (simp_all add: truncate_feed_def)
qed

lemma keeps_make_article:
  assumes "entry_summary e \<noteq> Some NotSliceable"
  shows "\<exists>a. make_article src p e = Inr a
           \<and> (keeps cutoff a \<longleftrightarrow>
                \<not> p < cutoff
                \<and> \<not> (\<exists>lit \<in> set STALE_YEAR_PATTERNS.
                         whole_word_in lit
                           ((case entry_title e of Some s \<Rightarrow> s | None \<Rightarrow> ''No title'') @ '' ''
                            @ take 500 (summary_text e))))"
proof (cases "entry_summary e")
  case None
  then show ?thesis
    unfolding keeps_def stale_year_found_iff
    by (simp add: too_old_def make_article_def slice_summary_def text_to_check_def
          get_or_empty_def summary_text_def)
next
  case (Some v)
  with assms obtain s where "v = Text s" by (cases v) simp_all
  with Some show ?thesis
    unfolding keeps_def stale_year_found_iff
    by (simp add: too_old_def make_article_def slice_summary_def text_to_check_def
          get_or_empty_def summary_text_def)
qed

text \<open>
  Claim C10. The article is built with the first 500 characters of the raw summary, and
  the filter sees only the article. So a call of \<open>fetch_recent_news\<close> has the same
  outcome, cache, clock readings and log when every raw summary is cut to 500 characters
  beforehand; two worlds whose feeds agree after that cut are treated alike; and an
  entry with a summary that can be sliced (a text, or none at all) yields an article,
  which is kept exactly when its date is not before the cutoff and no stale year stands
  as a whole word in the title, a space and the first 500 characters of the raw summary.
  A marker further back in the summary does not reject the entry.
\<close>

theorem summary_truncated_before_check:
  "fetch_recent_news strict clock (truncate_feed parse) hours limit self w
     = fetch_recent_news strict clock parse hours limit self w
   \<and> (truncate_feed parse = truncate_feed parse'
        \<longrightarrow> fetch_recent_news strict clock parse hours limit self w
              = fetch_recent_news strict clock parse' hours limit self w)
   \<and> (entry_summary e \<noteq> Some NotSliceable
        \<longrightarrow> (\<exists>a. make_article src p e = Inr a
                \<and> (keeps cutoff a \<longleftrightarrow>
                     \<not> p < cutoff
                     \<and> \<not> (\<exists>lit \<in> set STALE_YEAR_PATTERNS.
                              whole_word_in lit
                                ((case entry_title e of Some s \<Rightarrow> s | None \<Rightarrow> ''No title'')
                                 @ '' '' @ take 500 (summary_text e))))))"
proof -
  have t: "fetch_recent_news strict clock (truncate_feed q) hours limit self w
     = fetch_recent_news strict clock q hours limit self w" for q
    by (simp only: fetch_recent_news_def feeds_loop_truncate)
  have "fetch_recent_news strict clock parse hours limit self w
              = fetch_recent_news strict clock parse' hours limit self w"
    if "truncate_feed parse = truncate_feed parse'"
    using t[of parse] t[of parse'] that by simp
  moreover have "\<exists>a. make_article src p e = Inr a
                \<and> (keeps cutoff a \<longleftrightarrow>
                     \<not> p < cutoff
                     \<and> \<not> (\<exists>lit \<in> set STALE_YEAR_PATTERNS.
                              whole_word_in lit
                                ((case entry_title e of Some s \<Rightarrow> s | None \<Rightarrow> ''No title'')
                                 @ '' '' @ take 500 (summary_text e))))"
    if "entry_summary e \<noteq> Some NotSliceable"
    using that by (rule keeps_make_article)
  ultimately show ?thesis using t[of parse] by (intro conjI impI)
qed

theorem summary_truncated_before_check_witness:
  "truncate_feed late_marker_parse = truncate_feed (truncate_feed late_marker_parse)
   \<and> fetch_recent_news True example_clock late_marker_parse 8 50 example_fetcher example_world
       = fetch_recent_news True example_clock (truncate_feed late_marker_parse) 8 50
           example_fetcher example_world
   \<and> entry_summary late_marker_entry \<noteq> Some NotSliceable
   \<and> contains_substring ''2024'' (summary_text late_marker_entry)
   \<and> \<not> example_now < example_now - 24 * US_PER_HOUR
   \<and> (\<exists>a. make_article ''Example'' example_now late_marker_entry = Inr a
          \<and> keeps (example_now - 24 * US_PER_HOUR) a)"
proof -
  let ?raw = "summary_text late_marker_entry"
  let ?title = "case entry_title late_marker_entry of Some s \<Rightarrow> s | None \<Rightarrow> ''No title''"
  note inst = summary_truncated_before_check[of True example_clock late_marker_parse 8 50
         example_fetcher example_world "truncate_feed late_marker_parse"
         late_marker_entry "''Example''" example_now "example_now - 24 * US_PER_HOUR"]
  have i: "truncate_feed late_marker_parse = truncate_feed (truncate_feed late_marker_parse)"
    by (simp only: truncate_feed_idem)
  have f: "fetch_recent_news True example_clock late_marker_parse 8 50 example_fetcher
             example_world
       = fetch_recent_news True example_clock (truncate_feed late_marker_parse) 8 50
           example_fetcher example_world"
    by (rule mp[OF inst[THEN conjunct2, THEN conjunct1] i])
  have ok: "entry_summary late_marker_entry \<noteq> Some NotSliceable"
    by (simp add: late_marker_entry_def)
  have raw: "?raw = replicate 500 (CHR ''x'') @ '' as in 2024''"
    by (simp add: late_marker_entry_def summary_text_def)
  have a: "contains_substring ''2024'' ?raw"
    by (rule contains_substringI[of 507]) (simp_all add: raw)
  have b: "\<not> example_now < example_now - 24 * US_PER_HOUR" by (simp add: US_PER_HOUR_def)
  have t: "take 500 ?raw = replicate 500 (CHR ''x'')" by (simp add: raw)
  have h: "?title = ''Long read''" by (simp add: late_marker_entry_def)
  have no2: "CHR ''2'' \<notin> set (?title @ '' '' @ take 500 ?raw)"
    unfolding t h by simp
  have c: "\<not> (\<exists>lit \<in> set STALE_YEAR_PATTERNS.
                 whole_word_in lit (?title @ '' '' @ take 500 ?raw))"
  proof
    assume "\<exists>lit \<in> set STALE_YEAR_PATTERNS. whole_word_in lit (?title @ '' '' @ take 500 ?raw)"
    then obtain lit pre post where lit: "lit \<in> set STALE_YEAR_PATTERNS"
      and eq: "?title @ '' '' @ take 500 ?raw = pre @ lit @ post"
      unfolding whole_word_in_def by blast
    from lit have "CHR ''2'' \<in> set lit" by (auto simp: STALE_YEAR_PATTERNS_def)
    then have "CHR ''2'' \<in> set (pre @ lit @ post)" by simp
    then show False using no2 unfolding eq by contradiction
  qed
  from mp[OF inst[THEN conjunct2, THEN conjunct2] ok]
  obtain x where x: "make_article ''Example'' example_now late_marker_entry = Inr x"
    and k: "keeps (example_now - 24 * US_PER_HOUR) x \<longleftrightarrow>
              \<not> example_now < example_now - 24 * US_PER_HOUR
              \<and> \<not> (\<exists>lit \<in> set STALE_YEAR_PATTERNS.
                       whole_word_in lit (?title @ '' '' @ take 500 ?raw))"
    by blast
  have "keeps (example_now - 24 * US_PER_HOUR) x" by (rule iffD2[OF k conjI[OF b c]])
  with x have "\<exists>a. make_article ''Example'' example_now late_marker_entry = Inr a
          \<and> keeps (example_now - 24 * US_PER_HOUR) a" by blast
  with i f ok a b show ?thesis by (intro conjI)
qed

section \<open>The switch of the filter\<close>

text \<open>
  Claim C8. The switch \<open>STRICT_24H_FILTER\<close> is enabled as the module defines it, and a
  call of \<open>filter_stale_articles\<close> with the switch disabled returns its input list
  unchanged, in the same order, for every clock, maximum age and world; it reads no
  clock and the only thing it does is to log the warning that stale news may leak
  through.
\<close>

theorem filter_stale_articles_disabled_identity:
  "STRICT_24H_FILTER = True \<and>
   filter_stale_articles False clock articles max_age_hours w =
     (Inr articles, w\<lparr>log := log w @ [Warning_filter_disabled]\<rparr>)"
  by (simp add: filter_stale_articles_def STRICT_24H_FILTER_def)

end
